theory Spec2Isabelle
  imports Complex_Main "HOL-Library.Multiset"
begin

section \<open>JavaScript numbers\<close>

text \<open>
  The fields and parameters of \<^verbatim>\<open>SeededRandom\<close> have the TypeScript type
  \<^verbatim>\<open>number\<close>: an IEEE 754 double. A number is modelled as a finite value, one of the
  two infinities, or NaN. A finite value is a rational; the arithmetic operations round
  their exact result to the nearest double, as the processor does. \<open>-0\<close> is not
  distinguished from \<open>0\<close>.
\<close>

datatype number = Fin rat | PosInf | NegInf | NaN

subsection \<open>Rounding to a double\<close>

text \<open>
  \<open>rne\<close> rounds a rational to the nearest integer, a tie to the even one.
  \<open>ilog2 x\<close>, for \<open>x > 0\<close>, is the exponent \<open>e\<close> with \<open>2^e \<le> x < 2^(e+1)\<close>, counted by
  halving or doubling. A double near \<open>x\<close> is a multiple of \<open>2^(expo x)\<close>: \<open>53\<close> significant
  bits, and no exponent below that of the subnormal numbers. \<open>rnd\<close> rounds to the nearest
  such multiple, and \<open>fl\<close> is the result of an operation whose exact value is \<open>x\<close>: an
  infinity when the rounded value reaches \<open>2^1024\<close>.
\<close>

definition rne :: "rat \<Rightarrow> int" where
  "rne q =
     (let f = \<lfloor>q\<rfloor>; d = q - of_int f
      in if d < 1 / 2 then f else if 1 / 2 < d then f + 1 else if even f then f else f + 1)"

function halvings :: "rat \<Rightarrow> nat" where
  "halvings x = (if x < 2 then 0 else Suc (halvings (x / 2)))"
  by pat_completeness auto
termination
proof (relation "measure (\<lambda>x. nat \<lfloor>x\<rfloor>)")
  show "wf (measure (\<lambda>x::rat. nat \<lfloor>x\<rfloor>))" by simp
next
  fix x :: rat
  assume "\<not> x < 2"
  then have "\<lfloor>x / 2\<rfloor> < \<lfloor>x\<rfloor>" and "0 < \<lfloor>x\<rfloor>"
    by linarith+
  then show "(x / 2, x) \<in> measure (\<lambda>x. nat \<lfloor>x\<rfloor>)"
    by simp
qed

function doublings :: "rat \<Rightarrow> nat" where
  "doublings x = (if x \<le> 0 \<or> 1 \<le> x then 0 else Suc (doublings (2 * x)))"
  by pat_completeness auto
termination
proof (relation "measure (\<lambda>x. nat \<lfloor>1 / x\<rfloor>)")
  show "wf (measure (\<lambda>x::rat. nat \<lfloor>1 / x\<rfloor>))" by simp
next
  fix x :: rat
  assume "\<not> (x \<le> 0 \<or> 1 \<le> x)"
  then have x: "0 < x" "x < 1" by simp_all
  define y where "y = 1 / x"
  have y: "1 \<le> y" using x by (simp add: y_def)
  have "\<lfloor>y / 2\<rfloor> < \<lfloor>y\<rfloor>"
  proof (cases "y < 2")
    case True
    then have "\<lfloor>y / 2\<rfloor> < 1" by (simp add: floor_less_iff)
    moreover have "1 \<le> \<lfloor>y\<rfloor>" using y by (simp add: le_floor_iff)
    ultimately show ?thesis by linarith
  next
    case False
    then show ?thesis by linarith
  qed
  moreover have "1 / (2 * x) = y / 2" by (simp add: y_def)
  ultimately have "\<lfloor>1 / (2 * x)\<rfloor> < \<lfloor>1 / x\<rfloor>"
    by (simp only: y_def)
  moreover have "0 < \<lfloor>1 / x\<rfloor>" using y by (simp add: y_def)
  ultimately have "nat \<lfloor>1 / (2 * x)\<rfloor> < nat \<lfloor>1 / x\<rfloor>"
    by linarith
  then show "(2 * x, x) \<in> measure (\<lambda>x. nat \<lfloor>1 / x\<rfloor>)"
    by (simp only: in_measure)
qed

declare halvings.simps [simp del] doublings.simps [simp del]

definition ilog2 :: "rat \<Rightarrow> int" where
  "ilog2 x = (if 1 \<le> x then int (halvings x) else - int (doublings x))"

definition expo :: "rat \<Rightarrow> int" where
  "expo x = max (ilog2 \<bar>x\<bar> - 52) (- 1074)"

definition rnd :: "rat \<Rightarrow> rat" where
  "rnd x = (if x = 0 then 0 else of_int (rne (x / 2 powi expo x)) * 2 powi expo x)"

text \<open>The overflow threshold \<open>2^1024\<close>, written out.\<close>

definition huge :: rat where
  "huge = 179769313486231590772930519078902473361797697894230657273430081157732675805500963132708477322407536021120113879871393357658789768814416622492847430639474124377767893424865485276302219601246094119453082952085005768838150682342462881473913110540827237163350510684586298239947245938479716304835356329624224137216"

definition fl :: "rat \<Rightarrow> number" where
  "fl x =
     (let r = rnd x
      in if huge \<le> r then PosInf else if r \<le> - huge then NegInf else Fin r)"

text \<open>
  A rational is the value of a finite number of the language when rounding leaves it as
  it is and it lies below the overflow threshold.
\<close>

definition double :: "rat \<Rightarrow> bool" where
  "double q = (rnd q = q \<and> \<bar>q\<bar> < huge)"

text \<open>\<^verbatim>\<open>Number.MAX_VALUE\<close>, the largest finite number: \<open>(2^53 - 1) * 2^971\<close>.\<close>

definition MAX_VALUE :: rat where
  "MAX_VALUE = of_int ((2 ^ 53 - 1) * 2 ^ 971)"

text \<open>\<^verbatim>\<open>Math.floor\<close> and \<^verbatim>\<open>Math.abs\<close>: exact.\<close>

fun Math_floor :: "number \<Rightarrow> number" where
  "Math_floor (Fin q) = Fin (of_int \<lfloor>q\<rfloor>)"
| "Math_floor x = x"

fun Math_abs :: "number \<Rightarrow> number" where
  "Math_abs (Fin q) = Fin \<bar>q\<bar>"
| "Math_abs PosInf = PosInf"
| "Math_abs NegInf = PosInf"
| "Math_abs NaN = NaN"

text \<open>\<^verbatim>\<open>x || y\<close> on numbers: \<open>0\<close> and NaN are the falsy numbers.\<close>

definition js_or :: "number \<Rightarrow> number \<Rightarrow> number" where
  "js_or x y = (if x = Fin 0 \<or> x = NaN then y else x)"

text \<open>\<^verbatim>\<open>x < y\<close>, \<^verbatim>\<open>x >= y\<close> and \<^verbatim>\<open>x === y\<close>: every comparison with NaN is false.\<close>

fun js_lt :: "number \<Rightarrow> number \<Rightarrow> bool" where
  "js_lt NaN y = False"
| "js_lt x NaN = False"
| "js_lt (Fin a) (Fin b) = (a < b)"
| "js_lt x NegInf = False"
| "js_lt NegInf y = True"
| "js_lt PosInf y = False"
| "js_lt (Fin a) PosInf = True"

definition js_ge :: "number \<Rightarrow> number \<Rightarrow> bool" where
  "js_ge x y = (x \<noteq> NaN \<and> y \<noteq> NaN \<and> \<not> js_lt x y)"

definition js_strict_eq :: "number \<Rightarrow> number \<Rightarrow> bool" where
  "js_strict_eq x y = (x \<noteq> NaN \<and> x = y)"

text \<open>
  \<^verbatim>\<open>x % y\<close>: the remainder takes the sign of the dividend (the quotient is truncated
  towards zero); it is NaN when the dividend is not finite or the divisor is zero, and
  the dividend itself when the divisor is infinite. The remainder of two doubles is a
  double: no rounding takes place.
\<close>

definition trunc :: "rat \<Rightarrow> int" where
  "trunc q = (if q < 0 then \<lceil>q\<rceil> else \<lfloor>q\<rfloor>)"

fun js_mod :: "number \<Rightarrow> number \<Rightarrow> number" where
  "js_mod (Fin a) (Fin b) = (if b = 0 then NaN else Fin (a - b * of_int (trunc (a / b))))"
| "js_mod (Fin a) PosInf = Fin a"
| "js_mod (Fin a) NegInf = Fin a"
| "js_mod x y = NaN"

text \<open>
  \<^verbatim>\<open>x * y\<close>, \<^verbatim>\<open>x + y\<close>, \<^verbatim>\<open>x - y\<close> and \<^verbatim>\<open>x / y\<close>: the exact result of two finite
  operands is rounded by \<open>fl\<close>.
\<close>

fun js_neg :: "number \<Rightarrow> number" where
  "js_neg (Fin a) = Fin (- a)"
| "js_neg PosInf = NegInf"
| "js_neg NegInf = PosInf"
| "js_neg NaN = NaN"

fun js_mul :: "number \<Rightarrow> number \<Rightarrow> number" where
  "js_mul NaN y = NaN"
| "js_mul x NaN = NaN"
| "js_mul (Fin a) (Fin b) = fl (a * b)"
| "js_mul (Fin a) PosInf = (if a = 0 then NaN else if 0 < a then PosInf else NegInf)"
| "js_mul (Fin a) NegInf = (if a = 0 then NaN else if 0 < a then NegInf else PosInf)"
| "js_mul PosInf (Fin b) = (if b = 0 then NaN else if 0 < b then PosInf else NegInf)"
| "js_mul NegInf (Fin b) = (if b = 0 then NaN else if 0 < b then NegInf else PosInf)"
| "js_mul PosInf PosInf = PosInf"
| "js_mul PosInf NegInf = NegInf"
| "js_mul NegInf PosInf = NegInf"
| "js_mul NegInf NegInf = PosInf"

fun js_add :: "number \<Rightarrow> number \<Rightarrow> number" where
  "js_add NaN y = NaN"
| "js_add x NaN = NaN"
| "js_add (Fin a) (Fin b) = fl (a + b)"
| "js_add PosInf NegInf = NaN"
| "js_add NegInf PosInf = NaN"
| "js_add PosInf y = PosInf"
| "js_add NegInf y = NegInf"
| "js_add (Fin a) y = y"

definition js_sub :: "number \<Rightarrow> number \<Rightarrow> number" where
  "js_sub x y = js_add x (js_neg y)"

fun js_div :: "number \<Rightarrow> number \<Rightarrow> number" where
  "js_div NaN y = NaN"
| "js_div x NaN = NaN"
| "js_div (Fin a) (Fin b) =
     (if b = 0 then (if a = 0 then NaN else if 0 < a then PosInf else NegInf)
      else fl (a / b))"
| "js_div (Fin a) y = Fin 0"
| "js_div PosInf (Fin b) = (if 0 \<le> b then PosInf else NegInf)"
| "js_div NegInf (Fin b) = (if 0 \<le> b then NegInf else PosInf)"
| "js_div x y = NaN"

section \<open>The generator\<close>

text \<open>The class \<^verbatim>\<open>SeededRandom\<close>: one private field, \<^verbatim>\<open>seed\<close>.\<close>

record SeededRandom =
  seed :: number

definition MULTIPLIER :: number where
  "MULTIPLIER = Fin 48271"

definition MODULUS :: number where
  "MODULUS = Fin 2147483647"

definition CHECK :: number where
  "CHECK = Fin 1493962164"

text \<open>
  \<^verbatim>\<open>new SeededRandom(seed)\<close>. A call without argument takes the clock,
  \<^verbatim>\<open>Date.now()\<close>, as the seed: it is \<open>new_SeededRandom\<close> at that value.
\<close>

definition new_SeededRandom :: "number \<Rightarrow> SeededRandom" where
  "new_SeededRandom s =
     (let s1 = js_or (Math_abs (Math_floor s)) (Fin 1);
          s2 = (if js_ge s1 MODULUS then js_mod s1 MODULUS else s1);
          s3 = (if js_strict_eq s2 (Fin 0) then Fin 1 else s2)
      in \<lparr>seed = s3\<rparr>)"

definition "next" :: "SeededRandom \<Rightarrow> number \<times> SeededRandom" where
  "next g =
     (let s = js_mod (js_mul (seed g) MULTIPLIER) MODULUS
      in (js_div (js_sub s (Fin 1)) (js_sub MODULUS (Fin 1)), g\<lparr>seed := s\<rparr>))"

text \<open>
  Errors: the source throws \<^verbatim>\<open>new Error(message)\<close>, whose \<^verbatim>\<open>name\<close> is \<^verbatim>\<open>Error\<close>. The
  message is a template literal: its parts are kept as they are, a text or a number to
  print, and the decimal text of a number is not computed.
\<close>

datatype part = Text string | Num number

record thrown =
  name :: string
  message :: "part list"

definition Error :: "part list \<Rightarrow> thrown" where
  "Error msg = \<lparr>name = ''Error'', message = msg\<rparr>"

text \<open>\<^verbatim>\<open>nextInt(min, max)\<close>.\<close>

definition nextInt :: "number \<Rightarrow> number \<Rightarrow> SeededRandom \<Rightarrow> thrown + number \<times> SeededRandom" where
  "nextInt mn mx g =
     (if js_lt mx mn then
        Inl (Error [Text ''Invalid range: min ('', Num mn, Text '') must be <= max ('',
                    Num mx, Text '')''])
      else
        (let range = js_add (js_sub mx mn) (Fin 1);
             (u, g') = next g
         in Inr (js_add (Math_floor (js_mul u range)) mn, g')))"

subsection \<open>Arrays\<close>

text \<open>
  An array object: its elements, where \<open>None\<close> is \<^verbatim>\<open>undefined\<close> (or a hole), and its
  other properties, keyed by the number used as the property name. A number is an array
  index when it is a non-negative integer (the bound \<open>2^32 - 1\<close> on the length of an
  array is not modelled: lists are unbounded). Reading an index past the end or a missing
  property gives \<^verbatim>\<open>undefined\<close>; writing an index past the end extends the array with
  holes; writing any other key sets a property and leaves the elements alone.
\<close>

record 'a array =
  elems :: "'a option list"
  props :: "number \<Rightarrow> 'a option"

definition array_index :: "number \<Rightarrow> nat option" where
  "array_index x =
     (case x of
        Fin q \<Rightarrow> if of_int \<lfloor>q\<rfloor> = q \<and> 0 \<le> q then Some (nat \<lfloor>q\<rfloor>) else None
      | _ \<Rightarrow> None)"

definition array_get :: "'a array \<Rightarrow> number \<Rightarrow> 'a option" where
  "array_get a x =
     (case array_index x of
        Some k \<Rightarrow> if k < length (elems a) then elems a ! k else None
      | None \<Rightarrow> props a x)"

definition array_set :: "'a array \<Rightarrow> number \<Rightarrow> 'a option \<Rightarrow> 'a array" where
  "array_set a x v =
     (case array_index x of
        Some k \<Rightarrow>
          if k < length (elems a) then a\<lparr>elems := (elems a)[k := v]\<rparr>
          else a\<lparr>elems := elems a @ replicate (k - length (elems a)) None @ [v]\<rparr>
      | None \<Rightarrow> a\<lparr>props := (props a)(x := v)\<rparr>)"

text \<open>An array literal or a spread copy \<^verbatim>\<open>[...array]\<close>: the elements only.\<close>

definition array_of :: "'a option list \<Rightarrow> 'a array" where
  "array_of xs = \<lparr>elems = xs, props = (\<lambda>_. None)\<rparr>"

text \<open>\<^verbatim>\<open>choice(array)\<close>. The length of an array is a number.\<close>

definition array_length :: "'a list \<Rightarrow> number" where
  "array_length xs = Fin (of_nat (length xs))"

definition choice :: "'a list \<Rightarrow> SeededRandom \<Rightarrow> thrown + 'a option \<times> SeededRandom" where
  "choice array g =
     (if js_strict_eq (array_length array) (Fin 0) then
        Inl (Error [Text ''Cannot choose from empty array''])
      else
        (case nextInt (Fin 0) (js_sub (array_length array) (Fin 1)) g of
           Inl e \<Rightarrow> Inl e
         | Inr (index, g') \<Rightarrow> Inr (array_get (array_of (map Some array)) index, g')))"

text \<open>
  The destructuring swap \<^verbatim>\<open>[result[i], result[j]] = [result[j], result[i]]\<close>: both
  reads first, then the write to \<open>i\<close>, then the write to \<open>j\<close>.
\<close>

definition swap :: "'a array \<Rightarrow> number \<Rightarrow> number \<Rightarrow> 'a array" where
  "swap result i j =
     (let a = array_get result j; b = array_get result i
      in array_set (array_set result i a) j b)"

text \<open>
  \<^verbatim>\<open>shuffle(array)\<close>. The loop runs \<open>i\<close> from \<open>length - 1\<close> down to \<open>1\<close>;
  \<open>shuffle_loop i\<close> is the loop from \<open>i\<close> on.
\<close>

fun shuffle_loop :: "nat \<Rightarrow> 'a array \<Rightarrow> SeededRandom \<Rightarrow> thrown + 'a array \<times> SeededRandom" where
  "shuffle_loop 0 result g = Inr (result, g)"
| "shuffle_loop (Suc k) result g =
     (case nextInt (Fin 0) (Fin (of_nat (Suc k))) g of
        Inl e \<Rightarrow> Inl e
      | Inr (j, g') \<Rightarrow> shuffle_loop k (swap result (Fin (of_nat (Suc k))) j) g')"

definition shuffle :: "'a list \<Rightarrow> SeededRandom \<Rightarrow> thrown + 'a array \<times> SeededRandom" where
  "shuffle array g = shuffle_loop (length array - 1) (array_of (map Some array)) g"

text \<open>
  \<^verbatim>\<open>xs.slice(0, n)\<close>: \<open>n\<close> is truncated to an integer (NaN counts as \<open>0\<close>), a negative
  \<open>n\<close> counts from the end, and the result is a new array.
\<close>

definition slice0 :: "'a option list \<Rightarrow> number \<Rightarrow> 'a option list" where
  "slice0 xs n =
     (case n of
        Fin q \<Rightarrow>
          (let k = trunc q
           in if k < 0 then take (nat (int (length xs) + k)) xs else take (nat k) xs)
      | PosInf \<Rightarrow> xs
      | NegInf \<Rightarrow> []
      | NaN \<Rightarrow> [])"

text \<open>
  \<^verbatim>\<open>sample(array, n)\<close>. The method passes \<^verbatim>\<open>shuffle\<close> a copy \<^verbatim>\<open>[...array]\<close>, which has
  the elements of \<open>array\<close>.
\<close>

definition sample :: "'a list \<Rightarrow> number \<Rightarrow> SeededRandom \<Rightarrow> thrown + 'a array \<times> SeededRandom" where
  "sample array n g =
     (if js_lt (array_length array) n then
        Inl (Error [Text ''Cannot sample '', Num n, Text '' elements from array of length '',
                    Num (array_length array)])
      else if js_lt n (Fin 0) then
        Inl (Error [Text ''Sample size must be non-negative, got '', Num n])
      else
        (case shuffle array g of
           Inl e \<Rightarrow> Inl e
         | Inr (shuffled, g') \<Rightarrow> Inr (array_of (slice0 (elems shuffled) n), g')))"

subsection \<open>The shuffle on a store\<close>

text \<open>
  The caller passes \<^verbatim>\<open>shuffle\<close> a reference to an array, and the method allocates its
  result. To tell the caller's array from the copy, the same method is written over a
  store of array objects: an address is a position in the store, and an allocation
  appends to it. \<open>shuffle_at array h g\<close> is \<^verbatim>\<open>shuffle(array)\<close> in the store \<open>h\<close>:
  \<^verbatim>\<open>const result = [...array]\<close> allocates the copy, the loop swaps in place in the
  object at \<open>result\<close>, and the method returns that address.
\<close>

type_synonym 'a store = "'a array list"

fun shuffle_loop_at :: "nat \<Rightarrow> nat \<Rightarrow> 'a store \<Rightarrow> SeededRandom \<Rightarrow> thrown + 'a store \<times> SeededRandom" where
  "shuffle_loop_at 0 result h g = Inr (h, g)"
| "shuffle_loop_at (Suc k) result h g =
     (case nextInt (Fin 0) (Fin (of_nat (Suc k))) g of
        Inl e \<Rightarrow> Inl e
      | Inr (j, g') \<Rightarrow>
          shuffle_loop_at k result (h[result := swap (h ! result) (Fin (of_nat (Suc k))) j]) g')"

definition shuffle_at :: "nat \<Rightarrow> 'a store \<Rightarrow> SeededRandom \<Rightarrow> thrown + nat \<times> 'a store \<times> SeededRandom" where
  "shuffle_at array h g =
     (let result = length h;
          h1 = h @ [array_of (elems (h ! array))]
      in case shuffle_loop_at (length (elems (h1 ! result)) - 1) result h1 g of
           Inl e \<Rightarrow> Inl e
         | Inr (h2, g') \<Rightarrow> Inr (result, h2, g'))"

definition clone :: "SeededRandom \<Rightarrow> SeededRandom" where
  "clone g = new_SeededRandom (seed g)"

definition getSeed :: "SeededRandom \<Rightarrow> number" where
  "getSeed g = seed g"

text \<open>\<^verbatim>\<open>reset(seed?)\<close>: \<open>None\<close> is a call without argument (or with \<^verbatim>\<open>undefined\<close>).\<close>

definition reset :: "number option \<Rightarrow> SeededRandom \<Rightarrow> SeededRandom" where
  "reset s g =
     (case s of
        None \<Rightarrow> g
      | Some v \<Rightarrow>
          (let g1 = g\<lparr>seed := js_or (Math_abs (Math_floor v)) (Fin 1)\<rparr>;
               g2 = (if js_ge (seed g1) MODULUS then g1\<lparr>seed := js_mod (seed g1) MODULUS\<rparr> else g1)
           in if js_strict_eq (seed g2) (Fin 0) then g2\<lparr>seed := Fin 1\<rparr> else g2))"

text \<open>\<open>advance n\<close>: \<open>n\<close> calls of \<^verbatim>\<open>next()\<close> whose values are dropped.\<close>

fun advance :: "nat \<Rightarrow> SeededRandom \<Rightarrow> SeededRandom" where
  "advance 0 g = g"
| "advance (Suc n) g = advance n (snd (next g))"

text \<open>\<open>draws n\<close>: the values of \<open>n\<close> successive calls of \<^verbatim>\<open>next()\<close>.\<close>

fun draws :: "nat \<Rightarrow> SeededRandom \<Rightarrow> number list" where
  "draws 0 g = []"
| "draws (Suc n) g = fst (next g) # draws n (snd (next g))"

text \<open>\<^verbatim>\<open>SeededRandom.verify()\<close>.\<close>

definition verify :: bool where
  "verify = js_strict_eq (getSeed (advance 9999 (new_SeededRandom (Fin 1)))) CHECK"

section \<open>Invariant and auxiliary definitions\<close>

text \<open>
  The invariant of the generator state: the seed is an integer in \<open>[1, 2^31 - 2]\<close>.
\<close>

definition valid :: "SeededRandom \<Rightarrow> bool" where
  "valid g =
     (case seed g of
        Fin q \<Rightarrow> of_int \<lfloor>q\<rfloor> = q \<and> 1 \<le> q \<and> q \<le> 2147483646
      | _ \<Rightarrow> False)"

text \<open>The list of positions \<open>0, \<dots>, n - 1\<close> with \<open>i\<close> and \<open>j\<close> exchanged.\<close>

definition transposition :: "nat \<Rightarrow> nat \<Rightarrow> nat \<Rightarrow> nat list" where
  "transposition n i j = [0..<n][i := j, j := i]"

section \<open>Rounding\<close>

text \<open>
  The nearest integer, the exponent, and the grid of the doubles near a value: a value on
  the grid is left as it is, and rounding never crosses a point of the grid.
\<close>

lemma rne_bounds: "\<lfloor>q\<rfloor> \<le> rne q" "rne q \<le> \<lfloor>q\<rfloor> + 1"
  by (simp_all add: rne_def Let_def)

lemma rne_of_int [simp]: "rne (of_int n) = n"
  by (simp add: rne_def)

lemma rne_ge:
  assumes "of_int n \<le> q"
  shows "n \<le> rne q"
proof -
  have "n \<le> \<lfloor>q\<rfloor>" using assms by (simp add: le_floor_iff)
  with rne_bounds(1)[of q] show ?thesis by simp
qed

lemma rne_le:
  assumes "q \<le> of_int n"
  shows "rne q \<le> n"
proof (cases "q = of_int n")
  case True
  then show ?thesis by simp
next
  case False
  with assms have "q < of_int n" by simp
  then have "\<lfloor>q\<rfloor> < n" by (simp add: floor_less_iff)
  with rne_bounds(2)[of q] show ?thesis by simp
qed

lemma halvings_spec:
  "1 \<le> x \<Longrightarrow> 2 ^ halvings x \<le> x \<and> x < 2 ^ Suc (halvings x)"
proof (induction x rule: halvings.induct)
  case (1 x)
  show ?case
  proof (cases "x < 2")
    case True
    with 1 show ?thesis by (simp add: halvings.simps)
  next
    case False
    then have "1 \<le> x / 2" by simp
    with 1 False have "2 ^ halvings (x / 2) \<le> x / 2 \<and> x / 2 < 2 ^ Suc (halvings (x / 2))"
      by simp
    moreover have "halvings x = Suc (halvings (x / 2))"
      using False by (simp add: halvings.simps)
    ultimately show ?thesis by simp
  qed
qed

lemma doublings_spec:
  "0 < x \<Longrightarrow> x < 1 \<Longrightarrow> 1 \<le> x * 2 ^ doublings x \<and> x * 2 ^ doublings x < 2"
proof (induction x rule: doublings.induct)
  case (1 x)
  show ?case
  proof (cases "2 * x < 1")
    case True
    with 1 have "1 \<le> 2 * x * 2 ^ doublings (2 * x) \<and> 2 * x * 2 ^ doublings (2 * x) < 2"
      by simp
    moreover have "doublings x = Suc (doublings (2 * x))"
      using 1(2,3) by (simp add: doublings.simps)
    ultimately show ?thesis by (simp add: mult.assoc mult.left_commute)
  next
    case False
    then have "doublings (2 * x) = 0"
      by (simp add: doublings.simps)
    then have "doublings x = Suc 0"
      using 1(2,3) by (simp add: doublings.simps)
    with False 1(3) show ?thesis by simp
  qed
qed

lemma ilog2_spec:
  assumes "0 < x"
  shows "2 powi ilog2 x \<le> x" "x < 2 powi (ilog2 x + 1)"
proof -
  have "2 powi ilog2 x \<le> x \<and> x < 2 powi (ilog2 x + 1)"
  proof (cases "1 \<le> x")
    case True
    then have "ilog2 x = int (halvings x)" by (simp add: ilog2_def)
    moreover have "int (halvings x) + 1 = int (Suc (halvings x))" by simp
    ultimately show ?thesis
      using halvings_spec[OF True] by (simp only: power_int_of_nat)
  next
    case False
    then have x: "x < 1" by simp
    let ?d = "doublings x"
    have e: "ilog2 x = - int ?d" using False by (simp add: ilog2_def)
    note d = doublings_spec[OF assms x]
    have p: "(2::rat) powi (- int ?d) = 1 / 2 ^ ?d"
      by (simp add: power_int_minus_divide)
    have "1 / 2 ^ ?d \<le> x"
      using d by (simp add: field_simps)
    moreover have "x < 2 powi (- int ?d + 1)"
    proof -
      have "(2::rat) powi (- int ?d + 1) = 2 powi (- int ?d) * 2"
        by (rule power_int_add_1) simp
      then have "(2::rat) powi (- int ?d + 1) = 2 / 2 ^ ?d"
        by (simp only: p)
      moreover have "x < 2 / 2 ^ ?d"
        using d by (simp add: pos_less_divide_eq)
      ultimately show ?thesis by (simp only:)
    qed
    ultimately show ?thesis using e p by simp
  qed
  then show "2 powi ilog2 x \<le> x" "x < 2 powi (ilog2 x + 1)" by simp_all
qed

lemma powi2_less_imp:
  assumes "(2::rat) powi a < 2 powi b"
  shows "a < b"
proof (rule ccontr)
  assume "\<not> a < b"
  then have "b \<le> a" by simp
  then have "(2::rat) powi b \<le> 2 powi a"
    by (rule power_int_increasing) simp
  with assms show False by simp
qed

lemma ilog2_le:
  assumes "0 < x" "x < 2 powi (e + 1)"
  shows "ilog2 x \<le> e"
proof -
  have "(2::rat) powi ilog2 x < 2 powi (e + 1)"
    using ilog2_spec(1)[OF assms(1)] assms(2) by simp
  then have "ilog2 x < e + 1" by (rule powi2_less_imp)
  then show ?thesis by simp
qed

lemma ilog2_ge:
  assumes "2 powi e \<le> x"
  shows "e \<le> ilog2 x"
proof -
  have "(0::rat) < 2 powi e" by simp
  with assms have x: "0 < x" by linarith
  have "(2::rat) powi e < 2 powi (ilog2 x + 1)"
    using ilog2_spec(2)[OF x] assms by linarith
  then have "e < ilog2 x + 1" by (rule powi2_less_imp)
  then show ?thesis by simp
qed

lemma expo_ge: "- 1074 \<le> expo x"
  by (simp add: expo_def)

lemma rnd_le_grid:
  assumes "x \<le> of_int n * 2 powi expo x"
  shows "rnd x \<le> of_int n * 2 powi expo x"
proof (cases "x = 0")
  case True
  with assms show ?thesis by (simp add: rnd_def)
next
  case False
  let ?p = "(2::rat) powi expo x"
  have p: "0 < ?p" by simp
  have "x / ?p \<le> of_int n"
    using assms p by (simp add: pos_divide_le_eq)
  then have "rne (x / ?p) \<le> n" by (rule rne_le)
  then have "of_int (rne (x / ?p)) * ?p \<le> of_int n * ?p"
    using p by (simp add: mult_right_mono)
  with False show ?thesis by (simp add: rnd_def)
qed

lemma rnd_ge_grid:
  assumes "of_int n * 2 powi expo x \<le> x"
  shows "of_int n * 2 powi expo x \<le> rnd x"
proof (cases "x = 0")
  case True
  with assms show ?thesis by (simp add: rnd_def)
next
  case False
  let ?p = "(2::rat) powi expo x"
  have p: "0 < ?p" by simp
  have "of_int n \<le> x / ?p"
    using assms p by (simp add: pos_le_divide_eq)
  then have "n \<le> rne (x / ?p)" by (rule rne_ge)
  then have "of_int n * ?p \<le> of_int (rne (x / ?p)) * ?p"
    using p by (simp add: mult_right_mono)
  with False show ?thesis by (simp add: rnd_def)
qed

lemma rnd_grid:
  assumes "x = of_int n * 2 powi expo x"
  shows "rnd x = x"
proof -
  have le: "x \<le> of_int n * 2 powi expo x" and ge: "of_int n * 2 powi expo x \<le> x"
    using assms by simp_all
  from rnd_le_grid[OF le] rnd_ge_grid[OF ge] have "rnd x = of_int n * 2 powi expo x"
    by simp
  with assms show ?thesis by simp
qed

lemma rnd_nonneg: "0 \<le> x \<Longrightarrow> 0 \<le> rnd x"
  using rnd_ge_grid[of 0 x] by simp

lemma powi_nonpos: "t \<le> 0 \<Longrightarrow> (2::rat) powi t = 1 / 2 ^ nat (- t)"
  by (simp add: power_int_def field_simps)

lemma expo_le0:
  assumes "x \<noteq> 0" "\<bar>x\<bar> < 9007199254740992"
  shows "expo x \<le> 0"
proof -
  have "(2::rat) powi (52 + 1) = 9007199254740992" by simp
  then have "ilog2 \<bar>x\<bar> \<le> 52"
    using assms by (intro ilog2_le) simp_all
  then show ?thesis by (simp add: expo_def)
qed

lemma rnd_of_int:
  assumes "\<bar>n\<bar> < 9007199254740992"
  shows "rnd (of_int n) = of_int n"
proof (cases "n = 0")
  case True
  then show ?thesis by (simp add: rnd_def)
next
  case False
  let ?x = "of_int n :: rat"
  have "\<bar>?x\<bar> < 9007199254740992"
    using assms by (simp flip: of_int_abs)
  then have t: "expo ?x \<le> 0"
    using False by (intro expo_le0) simp_all
  have "?x = of_int (n * 2 ^ nat (- expo ?x)) * 2 powi expo ?x"
    by (simp add: powi_nonpos[OF t])
  then show ?thesis by (rule rnd_grid)
qed

lemma huge_gt: "9007199254740992 < huge"
  by (simp add: huge_def)

lemma fl_small:
  assumes "\<bar>rnd x\<bar> \<le> 9007199254740992"
  shows "fl x = Fin (rnd x)"
  using assms huge_gt by (auto simp: fl_def Let_def)

lemma fl_of_int:
  assumes "\<bar>n\<bar> < 9007199254740992"
  shows "fl (of_int n) = Fin (of_int n)"
proof -
  have r: "rnd (of_int n) = of_int n" using assms by (rule rnd_of_int)
  have "\<bar>of_int n :: rat\<bar> \<le> 9007199254740992"
    using assms by (simp flip: of_int_abs)
  then show ?thesis using fl_small[of "of_int n"] r by simp
qed

lemma powi_expo_le:
  assumes "x \<noteq> 0"
  shows "2 powi expo x \<le> \<bar>x\<bar> / 4503599627370496 \<or> 2 powi expo x = 2 powi (- 1074)"
proof (cases "- 1074 \<le> ilog2 \<bar>x\<bar> - 52")
  case True
  then have e: "expo x = ilog2 \<bar>x\<bar> + (- 52)" by (simp add: expo_def)
  have "(2::rat) powi (ilog2 \<bar>x\<bar> + (- 52)) = 2 powi ilog2 \<bar>x\<bar> * 2 powi (- 52)"
    by (rule power_int_add) simp
  also have "\<dots> = 2 powi ilog2 \<bar>x\<bar> / 4503599627370496"
    by (simp add: power_int_minus_divide)
  also have "\<dots> \<le> \<bar>x\<bar> / 4503599627370496"
    using ilog2_spec(1)[of "\<bar>x\<bar>"] assms by (simp add: divide_right_mono)
  finally show ?thesis using e by simp
next
  case False
  then have "expo x = - 1074" by (simp add: expo_def)
  then show ?thesis by simp
qed

lemma rnd_unit:
  assumes "0 \<le> a" "a \<le> 2147483645"
  shows "0 \<le> rnd (of_int a / 2147483646)" "rnd (of_int a / 2147483646) \<le> 2147483647 / 2147483648"
proof -
  let ?x = "of_int a / 2147483646 :: rat"
  have x0: "0 \<le> ?x" using assms by simp
  then show "0 \<le> rnd ?x" by (rule rnd_nonneg)
  show "rnd ?x \<le> 2147483647 / 2147483648"
  proof (cases "a = 0")
    case True
    then show ?thesis by (simp add: rnd_def)
  next
    case False
    then have pos: "0 < ?x" using assms by simp
    have "(of_int a :: rat) \<le> 2147483645" using assms by simp
    then have le: "?x \<le> 2147483645 / 2147483646" by simp
    then have "?x < 2 powi (- 1 + 1)" by simp
    with pos have "ilog2 ?x \<le> - 1" by (rule ilog2_le)
    moreover have "\<bar>?x\<bar> = ?x" using x0 by simp
    ultimately have t: "expo ?x \<le> - 53" by (simp add: expo_def)
    define m where "m = nat (- 31 - expo ?x)"
    have "nat (- expo ?x) = m + 31" using t by (simp add: m_def)
    then have "(2::rat) powi expo ?x = 1 / (2 ^ m * 2147483648)"
      using t by (simp add: powi_nonpos power_add)
    then have "of_int (2147483647 * 2 ^ m) * 2 powi expo ?x = (2147483647 / 2147483648 :: rat)"
      by simp
    moreover have "?x \<le> 2147483647 / 2147483648" using le by simp
    ultimately show ?thesis
      using rnd_le_grid[of ?x "2147483647 * 2 ^ m"] by simp
  qed
qed

lemma tiny_le: "(2::rat) powi (- 1074) \<le> 1 / 2147483648"
proof -
  have "(2::rat) powi (- 1074) \<le> 2 powi (- 31)"
    by (rule power_int_increasing) simp_all
  then show ?thesis by (simp add: power_int_minus_divide)
qed

lemma rnd_prod:
  assumes "0 \<le> u" "u \<le> 2147483647 / 2147483648" "1 \<le> r" "r \<le> 9007199254740992"
  shows "0 \<le> rnd (u * of_int r)" "rnd (u * of_int r) < of_int r"
proof -
  let ?q = "u * of_int r"
  have r: "(1::rat) \<le> of_int r" "(of_int r :: rat) \<le> 9007199254740992"
    using assms(3,4) by simp_all
  have q0: "0 \<le> ?q" using assms(1) r by simp
  then show "0 \<le> rnd ?q" by (rule rnd_nonneg)
  have "?q \<le> 2147483647 / 2147483648 * of_int r"
    using assms(2) r by (simp add: mult_right_mono)
  then have qle: "?q \<le> of_int r - of_int r / 2147483648"
    by (simp add: field_simps)
  show "rnd ?q < of_int r"
  proof (cases "?q = 0")
    case True
    then show ?thesis using r by (simp add: rnd_def)
  next
    case False
    have "(0::rat) < of_int r / 2147483648" using r by simp
    with qle have "?q < of_int r" by linarith
    with r(2) have "?q < 9007199254740992" by linarith
    then have t: "expo ?q \<le> 0"
      using False q0 by (intro expo_le0) simp_all
    define m where "m = nat (- expo ?q)"
    have p: "(2::rat) powi expo ?q = 1 / 2 ^ m"
      using t by (simp add: powi_nonpos m_def)
    have small: "(2::rat) powi expo ?q \<le> of_int r / 2147483648"
      using powi_expo_le[OF False]
    proof
      assume a: "(2::rat) powi expo ?q \<le> \<bar>?q\<bar> / 4503599627370496"
      have "\<bar>?q\<bar> \<le> of_int r" using qle q0 r by simp
      then have "\<bar>?q\<bar> / 4503599627370496 \<le> of_int r / 4503599627370496"
        by (simp add: divide_right_mono)
      moreover have "(of_int r :: rat) / 4503599627370496 \<le> of_int r / 2147483648"
        using r by simp
      ultimately show ?thesis using a by linarith
    next
      assume "(2::rat) powi expo ?q = 2 powi (- 1074)"
      then have "(2::rat) powi expo ?q \<le> 1 / 2147483648" using tiny_le by simp
      moreover have "(1::rat) / 2147483648 \<le> of_int r / 2147483648"
        using r by simp
      ultimately show ?thesis by linarith
    qed
    have grid: "of_int (r * 2 ^ m - 1) * (2::rat) powi expo ?q = of_int r - 2 powi expo ?q"
      by (simp add: p field_simps)
    have "?q \<le> of_int r - (2::rat) powi expo ?q"
      using qle small by linarith
    then have "rnd ?q \<le> of_int (r * 2 ^ m - 1) * 2 powi expo ?q"
      using rnd_le_grid[of ?q "r * 2 ^ m - 1"] by (simp only: grid)
    then have "rnd ?q \<le> of_int r - (2::rat) powi expo ?q"
      by (simp only: grid)
    moreover have "(0::rat) < 2 powi expo ?q" by simp
    ultimately show ?thesis by linarith
  qed
qed

text \<open>
  The relative error of rounding, and monotonicity: rounding never crosses a double.
\<close>

lemma rne_half: "of_int (rne q) \<le> q + 1 / 2"
proof -
  define f where "f = \<lfloor>q\<rfloor>"
  define d where "d = q - of_int f"
  have q: "q = of_int f + d" by (simp add: d_def)
  have "of_int (rne q) \<le> of_int f + d + 1 / 2"
  proof (cases "d < 1 / 2")
    case True
    then have "rne q = f" by (simp add: rne_def Let_def f_def d_def)
    moreover have "0 \<le> d" by (simp add: d_def f_def)
    ultimately show ?thesis by simp
  next
    case False
    then have "rne q \<le> f + 1" using rne_bounds(2)[of q] by (simp add: f_def)
    then have "(of_int (rne q) :: rat) \<le> of_int (f + 1)" by (simp only: of_int_le_iff)
    with False show ?thesis by simp
  qed
  then show ?thesis using q by simp
qed

lemma expo_normal:
  assumes "1 \<le> x"
  shows "2 powi expo x \<le> x / 4503599627370496"
proof -
  have x: "x \<noteq> 0" "\<bar>x\<bar> = x" using assms by simp_all
  from powi_expo_le[OF x(1)] show ?thesis
  proof
    assume "2 powi expo x \<le> \<bar>x\<bar> / 4503599627370496"
    then show ?thesis by (simp only: x(2))
  next
    assume "(2::rat) powi expo x = 2 powi (- 1074)"
    then have "(2::rat) powi expo x \<le> 1 / 2147483648" using tiny_le by simp
    also have "\<dots> \<le> 1 / 4503599627370496 * 2097152" by simp
    finally have "(2::rat) powi expo x \<le> 1 / 4503599627370496 * 2097152" .
    have "(2::rat) powi (- 1074) \<le> 2 powi (- 52)"
      by (rule power_int_increasing) simp_all
    then have "(2::rat) powi (- 1074) \<le> 1 / 4503599627370496"
      by (simp add: power_int_minus_divide)
    moreover have "(1::rat) / 4503599627370496 \<le> x / 4503599627370496"
      using assms by (simp add: divide_right_mono)
    ultimately show ?thesis
      using \<open>(2::rat) powi expo x = 2 powi (- 1074)\<close> by linarith
  qed
qed

lemma rnd_rel:
  assumes "1 \<le> x"
  shows "rnd x \<le> x + x / 9007199254740992"
proof -
  let ?p = "(2::rat) powi expo x"
  have p: "0 < ?p" by simp
  have x: "x \<noteq> 0" using assms by simp
  have "of_int (rne (x / ?p)) \<le> x / ?p + 1 / 2" by (rule rne_half)
  then have "of_int (rne (x / ?p)) * ?p \<le> (x / ?p + 1 / 2) * ?p"
    using p by (simp only: mult_right_mono less_imp_le)
  also have "\<dots> = x + ?p / 2"
    using p by (simp add: field_simps)
  finally have "rnd x \<le> x + ?p / 2"
    using x by (simp add: rnd_def)
  moreover have "?p / 2 \<le> x / 9007199254740992"
    using expo_normal[OF assms] by simp
  ultimately show ?thesis by linarith
qed

lemma rnd_le_one:
  assumes "0 \<le> x" "x \<le> 1"
  shows "rnd x \<le> 1"
proof (cases "x = 0")
  case True
  then show ?thesis by (simp add: rnd_def)
next
  case False
  have "\<bar>x\<bar> < 9007199254740992" using assms by simp
  with False have t: "expo x \<le> 0" by (rule expo_le0)
  have "of_int (2 ^ nat (- expo x)) * (2::rat) powi expo x = 1"
    by (simp add: powi_nonpos[OF t])
  then show ?thesis
    using rnd_le_grid[of x "2 ^ nat (- expo x)"] assms(2) by simp
qed

lemma powi_split:
  assumes "b \<le> a"
  shows "(2::rat) powi a = of_int (2 ^ nat (a - b)) * 2 powi b"
proof -
  define k where "k = nat (a - b)"
  have a: "a = int k + b" using assms by (simp add: k_def)
  have "(2::rat) powi (int k + b) = 2 powi int k * 2 powi b"
    by (rule power_int_add) simp
  then show ?thesis unfolding k_def[symmetric] a by simp
qed

lemma rnd_ge_pow:
  assumes "0 < x" "expo x \<le> ilog2 x"
  shows "2 powi ilog2 x \<le> rnd x"
proof -
  have g: "(2::rat) powi ilog2 x = of_int (2 ^ nat (ilog2 x - expo x)) * 2 powi expo x"
    using assms(2) by (rule powi_split)
  have "of_int (2 ^ nat (ilog2 x - expo x)) * 2 powi expo x \<le> x"
    using ilog2_spec(1)[OF assms(1)] by (simp only: g)
  then have "of_int (2 ^ nat (ilog2 x - expo x)) * 2 powi expo x \<le> rnd x"
    by (rule rnd_ge_grid)
  then show ?thesis by (simp only: g)
qed

lemma huge_powi: "huge = 2 powi 1024"
  by (simp add: huge_def)

lemma rnd_huge:
  assumes "huge \<le> x"
  shows "huge \<le> rnd x"
proof -
  have x: "0 < x" "\<bar>x\<bar> = x" using assms huge_gt by simp_all
  have l: "1024 \<le> ilog2 x"
    using assms unfolding huge_powi by (rule ilog2_ge)
  then have "expo x \<le> ilog2 x" using x(2) by (simp add: expo_def)
  with x(1) have "2 powi ilog2 x \<le> rnd x" by (rule rnd_ge_pow)
  moreover have "(2::rat) powi 1024 \<le> 2 powi ilog2 x"
    using l by (intro power_int_increasing) simp_all
  ultimately show ?thesis unfolding huge_powi by linarith
qed

lemma rnd_int:
  "\<exists>m. rnd (of_int n) = of_int m"
proof (cases "\<bar>n\<bar> < 9007199254740992")
  case True
  then show ?thesis using rnd_of_int by blast
next
  case False
  let ?x = "of_int n :: rat"
  have n: "?x \<noteq> 0" using False by auto
  have "(2::rat) powi 53 \<le> \<bar>?x\<bar>"
  proof -
    have "9007199254740992 \<le> \<bar>n\<bar>" using False by simp
    then have "(of_int 9007199254740992 :: rat) \<le> of_int \<bar>n\<bar>"
      by (simp only: of_int_le_iff)
    then show ?thesis by simp
  qed
  then have "53 \<le> ilog2 \<bar>?x\<bar>" by (rule ilog2_ge)
  then have e: "0 \<le> expo ?x" by (simp add: expo_def)
  then have "(2::rat) powi expo ?x = of_int (2 ^ nat (expo ?x))"
    by (simp add: power_int_def)
  then have "rnd ?x = of_int (rne (?x / 2 powi expo ?x) * 2 ^ nat (expo ?x))"
    using n by (simp add: rnd_def)
  then show ?thesis by blast
qed

lemma ilog2_mono:
  assumes "0 < x" "x \<le> y"
  shows "ilog2 x \<le> ilog2 y"
proof -
  have "0 < y" using assms by linarith
  then have "y < 2 powi (ilog2 y + 1)" by (rule ilog2_spec(2))
  with assms(2) have "x < 2 powi (ilog2 y + 1)" by linarith
  with assms(1) show ?thesis by (rule ilog2_le)
qed

lemma expo_mono:
  assumes "x \<noteq> 0" "\<bar>x\<bar> \<le> \<bar>y\<bar>"
  shows "expo x \<le> expo y"
proof -
  have "0 < \<bar>x\<bar>" using assms(1) by simp
  then have "ilog2 \<bar>x\<bar> \<le> ilog2 \<bar>y\<bar>" using assms(2) by (rule ilog2_mono)
  then show ?thesis by (simp add: expo_def)
qed

lemma fix_grid:
  assumes "rnd b = b"
  shows "\<exists>n. b = of_int n * 2 powi expo b"
proof (cases "b = 0")
  case True
  then have "b = of_int 0 * 2 powi expo b" by simp
  then show ?thesis by blast
next
  case False
  then have "rnd b = of_int (rne (b / 2 powi expo b)) * 2 powi expo b"
    by (simp add: rnd_def)
  with assms show ?thesis by metis
qed

lemma grid_coarser:
  fixes b :: rat
  assumes "b = of_int n * 2 powi eb" "e \<le> eb"
  shows "\<exists>m. b = of_int m * 2 powi e"
proof -
  have "b = of_int n * (of_int (2 ^ nat (eb - e)) * 2 powi e)"
    using assms(1) powi_split[OF assms(2)] by simp
  then have "b = of_int (n * 2 ^ nat (eb - e)) * 2 powi e"
    by simp
  then show ?thesis by blast
qed

lemma expo_less_pow:
  assumes "b \<noteq> 0" "expo b < expo x"
  shows "\<bar>b\<bar> < 2 powi ilog2 \<bar>x\<bar>" and "ilog2 \<bar>x\<bar> = expo x + 52"
proof -
  have "- 1074 < expo x" using expo_ge[of b] assms(2) by linarith
  then show e: "ilog2 \<bar>x\<bar> = expo x + 52"
    by (simp add: expo_def max_def split: if_splits)
  have "ilog2 \<bar>b\<bar> - 52 \<le> expo b" by (simp add: expo_def)
  then have l: "ilog2 \<bar>b\<bar> + 1 \<le> ilog2 \<bar>x\<bar>" using assms(2) e by linarith
  have "0 < \<bar>b\<bar>" using assms(1) by simp
  then have "\<bar>b\<bar> < 2 powi (ilog2 \<bar>b\<bar> + 1)" by (rule ilog2_spec(2))
  moreover have "(2::rat) powi (ilog2 \<bar>b\<bar> + 1) \<le> 2 powi ilog2 \<bar>x\<bar>"
    using l by (intro power_int_increasing) simp_all
  ultimately show "\<bar>b\<bar> < 2 powi ilog2 \<bar>x\<bar>" by linarith
qed

lemma rnd_le_fix:
  assumes "rnd b = b" "x \<le> b"
  shows "rnd x \<le> b"
proof -
  from fix_grid[OF assms(1)] obtain n where n: "b = of_int n * 2 powi expo b" by blast
  have same: "expo x \<le> expo b \<Longrightarrow> rnd x \<le> b"
  proof -
    assume le: "expo x \<le> expo b"
    from grid_coarser[OF n le] obtain m where m: "b = of_int m * 2 powi expo x" by blast
    have "x \<le> of_int m * 2 powi expo x" using assms(2) m by simp
    then have "rnd x \<le> of_int m * 2 powi expo x" by (rule rnd_le_grid)
    then show ?thesis using m by simp
  qed
  consider "0 \<le> b" "x \<le> 0" | "0 < x" | "b < 0" using assms(2) by linarith
  then show ?thesis
  proof cases
    case 1
    have "x \<le> of_int 0 * 2 powi expo x" using 1(2) by simp
    then have "rnd x \<le> of_int 0 * 2 powi expo x" by (rule rnd_le_grid)
    then show ?thesis using 1(1) by simp
  next
    case 2
    then have "x \<noteq> 0" "\<bar>x\<bar> \<le> \<bar>b\<bar>" using assms(2) by simp_all
    then have "expo x \<le> expo b" by (rule expo_mono)
    then show ?thesis by (rule same)
  next
    case 3
    then have b: "b \<noteq> 0" by simp
    have x: "x < 0" using 3 assms(2) by linarith
    show ?thesis
    proof (cases "expo x \<le> expo b")
      case True
      then show ?thesis by (rule same)
    next
      case False
      then have lt: "expo b < expo x" by simp
      note h = expo_less_pow[OF b lt]
      have xp: "0 < \<bar>x\<bar>" using x by simp
      have "(2::rat) powi ilog2 \<bar>x\<bar> = of_int (2 ^ nat (ilog2 \<bar>x\<bar> - expo x)) * 2 powi expo x"
        by (rule powi_split) (simp add: h(2))
      then have g: "- ((2::rat) powi ilog2 \<bar>x\<bar>)
                   = of_int (- (2 ^ nat (ilog2 \<bar>x\<bar> - expo x))) * 2 powi expo x"
        by simp
      have "2 powi ilog2 \<bar>x\<bar> \<le> \<bar>x\<bar>" using xp by (rule ilog2_spec(1))
      then have "x \<le> - ((2::rat) powi ilog2 \<bar>x\<bar>)" using x by simp
      then have "x \<le> of_int (- (2 ^ nat (ilog2 \<bar>x\<bar> - expo x))) * 2 powi expo x"
        by (simp only: g)
      then have "rnd x \<le> of_int (- (2 ^ nat (ilog2 \<bar>x\<bar> - expo x))) * 2 powi expo x"
        by (rule rnd_le_grid)
      then have "rnd x \<le> - ((2::rat) powi ilog2 \<bar>x\<bar>)" by (simp only: g)
      moreover have "- ((2::rat) powi ilog2 \<bar>x\<bar>) < b" using h(1) 3 by simp
      ultimately show ?thesis by linarith
    qed
  qed
qed

lemma rnd_ge_fix:
  assumes "rnd a = a" "a \<le> x"
  shows "a \<le> rnd x"
proof -
  from fix_grid[OF assms(1)] obtain n where n: "a = of_int n * 2 powi expo a" by blast
  have same: "expo x \<le> expo a \<Longrightarrow> a \<le> rnd x"
  proof -
    assume le: "expo x \<le> expo a"
    from grid_coarser[OF n le] obtain m where m: "a = of_int m * 2 powi expo x" by blast
    have "of_int m * 2 powi expo x \<le> x" using assms(2) m by simp
    then have "of_int m * 2 powi expo x \<le> rnd x" by (rule rnd_ge_grid)
    then show ?thesis using m by simp
  qed
  consider "a \<le> 0" "0 \<le> x" | "x < 0" | "0 < a" using assms(2) by linarith
  then show ?thesis
  proof cases
    case 1
    have "0 \<le> rnd x" using 1(2) by (rule rnd_nonneg)
    then show ?thesis using 1(1) by simp
  next
    case 2
    then have "x \<noteq> 0" "\<bar>x\<bar> \<le> \<bar>a\<bar>" using assms(2) by simp_all
    then have "expo x \<le> expo a" by (rule expo_mono)
    then show ?thesis by (rule same)
  next
    case 3
    then have a: "a \<noteq> 0" by simp
    have x: "0 < x" "\<bar>x\<bar> = x" using 3 assms(2) by simp_all
    show ?thesis
    proof (cases "expo x \<le> expo a")
      case True
      then show ?thesis by (rule same)
    next
      case False
      then have lt: "expo a < expo x" by simp
      note h = expo_less_pow[OF a lt]
      have "expo x \<le> ilog2 x" using h(2) x(2) by simp
      with x(1) have "2 powi ilog2 x \<le> rnd x" by (rule rnd_ge_pow)
      moreover have "a < 2 powi ilog2 x" using h(1) 3 x(2) by simp
      ultimately show ?thesis by linarith
    qed
  qed
qed

section \<open>The linear congruential step\<close>

text \<open>
  On a seed \<open>k\<close> in \<open>[1, 2^31 - 2]\<close> the product \<open>k * 48271\<close> is below \<open>2^53\<close>: the
  multiplication and the remainder are exact, and the seed becomes
  \<open>k * 48271 mod (2^31 - 1)\<close>, again in \<open>[1, 2^31 - 2]\<close>. The value returned is the
  double nearest to \<open>(seed - 1) / (2^31 - 2)\<close>, which is at most \<open>1 - 2^-31\<close>.
\<close>

lemma valid_iff: "valid g \<longleftrightarrow> (\<exists>k::int. seed g = Fin (of_int k) \<and> 1 \<le> k \<and> k \<le> 2147483646)"
proof
  assume "valid g"
  then obtain q where q: "seed g = Fin q" "of_int \<lfloor>q\<rfloor> = q" "1 \<le> q" "q \<le> 2147483646"
    by (auto simp: valid_def split: number.splits)
  from q(2,3,4) have "1 \<le> \<lfloor>q\<rfloor>" "\<lfloor>q\<rfloor> \<le> 2147483646"
    by linarith+
  with q show "\<exists>k::int. seed g = Fin (of_int k) \<and> 1 \<le> k \<and> k \<le> 2147483646"
    by metis
next
  assume "\<exists>k::int. seed g = Fin (of_int k) \<and> 1 \<le> k \<and> k \<le> 2147483646"
  then show "valid g"
    by (auto simp: valid_def)
qed

lemma trunc_of_int_div:
  assumes "0 \<le> n" "0 < m"
  shows "trunc (of_int n / of_int m) = n div m"
proof -
  have "\<not> (of_int n / of_int m :: rat) < 0"
    using assms by (simp add: divide_less_0_iff)
  then show ?thesis
    by (simp add: trunc_def floor_divide_of_int_eq)
qed

lemma js_mod_of_int:
  assumes "0 \<le> n" "0 < m"
  shows "js_mod (Fin (of_int n)) (Fin (of_int m)) = Fin (of_int (n mod m))"
proof -
  have "(of_int n :: rat) - of_int m * of_int (n div m) = of_int (n mod m)"
    by (simp add: minus_mult_div_eq_mod flip: of_int_mult of_int_diff)
  then show ?thesis
    using assms by (simp add: trunc_of_int_div)
qed

lemma lcg_nonzero:
  assumes "1 \<le> k" "k \<le> 2147483646"
  shows "(k * 48271) mod 2147483647 \<noteq> (0::int)"
proof
  assume "(k * 48271) mod 2147483647 = (0::int)"
  then have "(2147483647::int) dvd k * 48271"
    by (simp only: dvd_eq_mod_eq_0)
  then obtain q where q: "k * 48271 = 2147483647 * q" ..
  have "k = (k * 48271) * 1899818559 - 2147483647 * (k * 42704)"
    by simp
  also have "\<dots> = 2147483647 * (q * 1899818559 - k * 42704)"
    by (simp only: q right_diff_distrib mult.assoc)
  finally have "(2147483647::int) dvd k" ..
  then have "2147483647 \<le> k"
    using assms(1) by (intro zdvd_imp_le) simp_all
  with assms(2) show False by simp
qed

lemma lcg_range:
  assumes "1 \<le> k" "k \<le> 2147483646"
  shows "1 \<le> (k * 48271) mod (2147483647::int)" "(k * 48271) mod (2147483647::int) \<le> 2147483646"
proof -
  have "0 \<le> (k * 48271) mod (2147483647::int)" by simp
  with lcg_nonzero[OF assms] show "1 \<le> (k * 48271) mod (2147483647::int)" by linarith
  have "(k * 48271) mod (2147483647::int) < 2147483647" by simp
  then show "(k * 48271) mod (2147483647::int) \<le> 2147483646" by linarith
qed

lemma fl_int [simp]:
  "\<bar>n\<bar> < 9007199254740992 \<Longrightarrow> fl (of_int n) = Fin (of_int n)"
  by (rule fl_of_int)

lemma js_mul_int:
  assumes "\<bar>a * b\<bar> < 9007199254740992"
  shows "js_mul (Fin (of_int a)) (Fin (of_int b)) = Fin (of_int (a * b))"
  using fl_of_int[OF assms] by simp

lemma js_add_int:
  assumes "\<bar>a + b\<bar> < 9007199254740992"
  shows "js_add (Fin (of_int a)) (Fin (of_int b)) = Fin (of_int (a + b))"
  using fl_of_int[OF assms] by simp

lemma js_sub_int:
  assumes "\<bar>a - b\<bar> < 9007199254740992"
  shows "js_sub (Fin (of_int a)) (Fin (of_int b)) = Fin (of_int (a - b))"
proof -
  have "js_sub (Fin (of_int a)) (Fin (of_int b)) = fl (of_int (a - b))"
    by (simp add: js_sub_def)
  then show ?thesis using fl_of_int[OF assms] by simp
qed

lemma next_of_int:
  assumes "seed g = Fin (of_int k)" "1 \<le> k" "k \<le> 2147483646"
  shows "next g = (Fin (rnd (of_int ((k * 48271) mod 2147483647 - 1) / 2147483646)),
                   g\<lparr>seed := Fin (of_int ((k * 48271) mod 2147483647))\<rparr>)"
proof -
  let ?k' = "(k * 48271) mod 2147483647"
  note r = lcg_range[OF assms(2,3)]
  have "\<bar>k * 48271\<bar> < 9007199254740992" using assms(2,3) by simp
  then have "js_mul (Fin (of_int k)) (Fin (of_int 48271)) = Fin (of_int (k * 48271))"
    by (rule js_mul_int)
  then have "js_mul (seed g) MULTIPLIER = Fin (of_int (k * 48271))"
    using assms(1) by (simp add: MULTIPLIER_def)
  moreover have "0 \<le> k * 48271" using assms by simp
  ultimately have s: "js_mod (js_mul (seed g) MULTIPLIER) MODULUS = Fin (of_int ?k')"
    using js_mod_of_int[of "k * 48271" 2147483647] by (simp add: MODULUS_def)
  have "\<bar>?k' - 1\<bar> < 9007199254740992" using r by simp
  then have "js_sub (Fin (of_int ?k')) (Fin (of_int 1)) = Fin (of_int (?k' - 1))"
    by (rule js_sub_int)
  then have a: "js_sub (Fin (of_int ?k')) (Fin 1) = Fin (of_int (?k' - 1))"
    by simp
  have "js_sub (Fin (of_int 2147483647)) (Fin (of_int 1)) = Fin (of_int (2147483647 - 1))"
    by (rule js_sub_int) simp
  then have b: "js_sub MODULUS (Fin 1) = Fin 2147483646"
    by (simp add: MODULUS_def)
  have u: "0 \<le> rnd (of_int (?k' - 1) / 2147483646)"
      "rnd (of_int (?k' - 1) / 2147483646) \<le> 2147483647 / 2147483648"
  proof -
    have "0 \<le> ?k' - 1" "?k' - 1 \<le> 2147483645" using r by simp_all
    then show "0 \<le> rnd (of_int (?k' - 1) / 2147483646)"
      "rnd (of_int (?k' - 1) / 2147483646) \<le> 2147483647 / 2147483648"
      by (rule rnd_unit)+
  qed
  then have "\<bar>rnd (of_int (?k' - 1) / 2147483646)\<bar> \<le> 9007199254740992"
    by simp
  then have "fl (of_int (?k' - 1) / 2147483646) = Fin (rnd (of_int (?k' - 1) / 2147483646))"
    by (rule fl_small)
  then have "js_div (Fin (of_int (?k' - 1))) (Fin 2147483646)
               = Fin (rnd (of_int (?k' - 1) / 2147483646))"
    by simp
  then show ?thesis
    by (simp only: next_def Let_def s a b)
qed

lemma next_value:
  assumes "valid g"
  shows "\<exists>u. fst (next g) = Fin u \<and> 0 \<le> u \<and> u \<le> 2147483647 / 2147483648"
    and "valid (snd (next g))"
proof -
  from assms obtain k :: int where k: "seed g = Fin (of_int k)" "1 \<le> k" "k \<le> 2147483646"
    by (auto simp: valid_iff)
  let ?k' = "(k * 48271) mod 2147483647"
  note n = next_of_int[OF k]
  note r = lcg_range[OF k(2,3)]
  have "0 \<le> ?k' - 1" "?k' - 1 \<le> 2147483645" using r by simp_all
  then have "0 \<le> rnd (of_int (?k' - 1) / 2147483646)"
      "rnd (of_int (?k' - 1) / 2147483646) \<le> 2147483647 / 2147483648"
    by (rule rnd_unit)+
  then show "\<exists>u. fst (next g) = Fin u \<and> 0 \<le> u \<and> u \<le> 2147483647 / 2147483648"
    using n by simp
  have "seed (snd (next g)) = Fin (of_int ?k')"
    using n by simp
  with r show "valid (snd (next g))"
    unfolding valid_iff by blast
qed

lemma next_valid:
  assumes "valid g"
  shows "\<exists>u. fst (next g) = Fin u \<and> 0 \<le> u \<and> u < 1" and "valid (snd (next g))"
proof -
  from next_value(1)[OF assms] obtain u where
    "fst (next g) = Fin u" "0 \<le> u" "u \<le> 2147483647 / 2147483648" by blast
  then show "\<exists>u. fst (next g) = Fin u \<and> 0 \<le> u \<and> u < 1"
    by (intro exI[of _ u]) simp
  show "valid (snd (next g))" using assms by (rule next_value(2))
qed

lemma advance_valid: "valid g \<Longrightarrow> valid (advance n g)"
  by (induction n arbitrary: g) (simp_all add: next_valid(2))

lemma draws_unit:
  "valid g \<Longrightarrow> v \<in> set (draws n g) \<Longrightarrow> \<exists>u. v = Fin u \<and> 0 \<le> u \<and> u < 1"
proof (induction n arbitrary: g)
  case 0
  then show ?case by simp
next
  case (Suc n)
  then show ?case
    using next_valid[OF Suc.prems(1)] by auto
qed

lemma nextInt_value:
  assumes "valid g" "mn \<le> mx"
    and "\<bar>mn\<bar> < 9007199254740992" "\<bar>mx\<bar> < 9007199254740992"
    and "mx - mn + 1 < 9007199254740992"
    and "fst (next g) = Fin u"
  shows "nextInt (Fin (of_int mn)) (Fin (of_int mx)) g
           = Inr (Fin (of_int (\<lfloor>rnd (u * of_int (mx - mn + 1))\<rfloor> + mn)), snd (next g))"
    and "0 \<le> \<lfloor>rnd (u * of_int (mx - mn + 1))\<rfloor>"
    and "\<lfloor>rnd (u * of_int (mx - mn + 1))\<rfloor> \<le> mx - mn"
proof -
  from next_value(1)[OF assms(1)] assms(6) have
    u: "0 \<le> u" "u \<le> 2147483647 / 2147483648"
    by auto
  define r :: int where "r = mx - mn + 1"
  have r: "1 \<le> r" "r \<le> 9007199254740992" using assms(2,5) by (simp_all add: r_def)
  have "\<bar>mx - mn\<bar> < 9007199254740992" using assms(2,5) by simp
  then have d: "js_sub (Fin (of_int mx)) (Fin (of_int mn)) = Fin (of_int (mx - mn))"
    by (rule js_sub_int)
  have "\<bar>(mx - mn) + 1\<bar> < 9007199254740992" using assms(2,5) by simp
  then have "js_add (Fin (of_int (mx - mn))) (Fin (of_int 1)) = Fin (of_int ((mx - mn) + 1))"
    by (rule js_add_int)
  then have range: "js_add (js_sub (Fin (of_int mx)) (Fin (of_int mn))) (Fin 1) = Fin (of_int r)"
    by (simp add: d r_def)
  note p = rnd_prod[OF u r]
  have "\<bar>rnd (u * of_int r)\<bar> \<le> 9007199254740992"
    using p r(2) by simp
  then have "fl (u * of_int r) = Fin (rnd (u * of_int r))" by (rule fl_small)
  then have prod: "js_mul (Fin u) (Fin (of_int r)) = Fin (rnd (u * of_int r))"
    by simp
  define v where "v = \<lfloor>rnd (u * of_int r)\<rfloor>"
  have v: "0 \<le> v" "v < r"
    using p by (simp_all add: v_def floor_less_iff)
  have "\<bar>v + mn\<bar> < 9007199254740992"
    using v assms(3,4) by (simp add: r_def)
  then have sum: "js_add (Fin (of_int v)) (Fin (of_int mn)) = Fin (of_int (v + mn))"
    by (rule js_add_int)
  have nl: "js_lt (Fin (of_int mx)) (Fin (of_int mn)) = False" using assms(2) by simp
  have fl: "Math_floor (Fin (rnd (u * of_int r))) = Fin (of_int v)"
    by (simp add: v_def)
  have "nextInt (Fin (of_int mn)) (Fin (of_int mx)) g = Inr (Fin (of_int (v + mn)), snd (next g))"
    unfolding nextInt_def Let_def split_beta range
    by (simp only: nl if_False assms(6) prod fl sum)
  then show "nextInt (Fin (of_int mn)) (Fin (of_int mx)) g
           = Inr (Fin (of_int (\<lfloor>rnd (u * of_int (mx - mn + 1))\<rfloor> + mn)), snd (next g))"
    by (simp only: v_def r_def)
  show "0 \<le> \<lfloor>rnd (u * of_int (mx - mn + 1))\<rfloor>"
    using v(1) by (simp only: v_def r_def)
  show "\<lfloor>rnd (u * of_int (mx - mn + 1))\<rfloor> \<le> mx - mn"
    using v(2) by (simp add: v_def r_def)
qed

lemma nextInt_valid:
  assumes "valid g" "mn \<le> mx"
    and "\<bar>mn\<bar> < 9007199254740992" "\<bar>mx\<bar> < 9007199254740992"
    and "mx - mn + 1 < 9007199254740992"
  shows "\<exists>k. nextInt (Fin (of_int mn)) (Fin (of_int mx)) g = Inr (Fin (of_int k), snd (next g))
           \<and> mn \<le> k \<and> k \<le> mx"
proof -
  from next_value(1)[OF assms(1)] obtain u where u: "fst (next g) = Fin u" by blast
  note v = nextInt_value[OF assms u]
  let ?k = "\<lfloor>rnd (u * of_int (mx - mn + 1))\<rfloor> + mn"
  have "mn \<le> ?k" "?k \<le> mx" using v(2,3) by simp_all
  with v(1) show ?thesis by blast
qed

text \<open>
  A draw computed step by step: the next seed, the value of \<^verbatim>\<open>next()\<close> and the index.
\<close>

lemma nextInt_eval:
  assumes "seed g = Fin (of_int k)" "1 \<le> k" "k \<le> 2147483646"
    and "(k * 48271) mod 2147483647 = k'"
    and "rnd (of_int (k' - 1) / 2147483646) = u"
    and "n < 9007199254740991"
    and "\<lfloor>rnd (u * of_int (int n + 1))\<rfloor> = j"
  shows "nextInt (Fin 0) (Fin (of_nat n)) g = Inr (Fin (of_int j), g\<lparr>seed := Fin (of_int k')\<rparr>)"
proof -
  have v: "valid g" using assms(1-3) unfolding valid_iff by blast
  have n: "next g = (Fin u, g\<lparr>seed := Fin (of_int k')\<rparr>)"
    using next_of_int[OF assms(1-3)] by (simp only: assms(4,5))
  then have u: "fst (next g) = Fin u" by simp
  have "nextInt (Fin (of_int 0)) (Fin (of_int (int n))) g
           = Inr (Fin (of_int (\<lfloor>rnd (u * of_int (int n - 0 + 1))\<rfloor> + 0)), snd (next g))"
    using v _ _ _ _ u by (rule nextInt_value(1)) (use assms(6) in simp_all)
  then show ?thesis
    using n assms(7) by simp
qed

lemma nextInt_throws: "(\<exists>e. nextInt mn mx g = Inl e) \<longleftrightarrow> js_lt mx mn"
  by (auto simp: nextInt_def Let_def split_beta)

lemma array_index_nat [simp]: "array_index (Fin (of_nat i)) = Some i"
  by (simp add: array_index_def)

lemma array_index_int [simp]: "0 \<le> k \<Longrightarrow> array_index (Fin (of_int k)) = Some (nat k)"
  by (simp add: array_index_def)

lemma swap_in_range:
  assumes "i < length (elems a)" "j < length (elems a)"
  shows "swap a (Fin (of_nat i)) (Fin (of_int (int j))) =
         a\<lparr>elems := (elems a)[i := elems a ! j, j := elems a ! i]\<rparr>"
  using assms by (simp add: swap_def array_get_def array_set_def Let_def)

section \<open>The range of a draw\<close>

text \<open>
  The draw of \<^verbatim>\<open>nextInt\<close> for integer bounds that are doubles, whatever their size, as
  long as the range does not overflow.
\<close>

lemma fl_Fin:
  assumes "- huge < rnd x" "rnd x < huge"
  shows "fl x = Fin (rnd x)"
  using assms by (simp add: fl_def Let_def)

lemma fl_PosInf: "huge \<le> rnd x \<Longrightarrow> fl x = PosInf"
  by (simp add: fl_def Let_def)

lemma huge_int: "huge = of_int (2 ^ 1024)"
  by (simp add: huge_def)

lemma huge_pos: "0 < huge"
  using huge_gt by simp

lemma slack: "(2147483647 / 2147483648 :: rat) *
    (9007199254740993 / 9007199254740992 * (9007199254740993 / 9007199254740992
       * (9007199254740993 / 9007199254740992))) < 1"
  by simp

lemma rnd_rel_mult:
  assumes "1 \<le> x"
  shows "rnd x \<le> x * (9007199254740993 / 9007199254740992)"
  using rnd_rel[OF assms] by (simp add: field_simps)

lemma rnd_draw:
  assumes "0 \<le> u" "u \<le> 2147483647 / 2147483648" "0 \<le> D"
  shows "rnd (u * rnd (rnd (of_int D) + 1)) < of_int D + 1"
proof (cases "D = 0")
  case True
  have "rnd (u * of_int 1) < of_int 1"
    using assms(1,2) by (rule rnd_prod(2)) simp_all
  moreover have "rnd (1::rat) = 1" using rnd_of_int[of 1] by simp
  ultimately show ?thesis using True by (simp add: rnd_def)
next
  case False
  let ?c = "9007199254740993 / 9007199254740992 :: rat"
  let ?E = "of_int D + 1 :: rat"
  define d1 where "d1 = rnd (of_int D)"
  define R where "R = rnd (d1 + 1)"
  define x where "x = u * R"
  have D1: "(1::rat) \<le> of_int D" using False assms(3) by simp
  have c: "1 \<le> ?c" "0 \<le> ?c" by simp_all
  have E: "0 \<le> ?E" "2 \<le> ?E" using D1 by simp_all
  have d10: "0 \<le> d1" unfolding d1_def using D1 by (intro rnd_nonneg) simp
  have "d1 \<le> of_int D * ?c" unfolding d1_def using D1 by (rule rnd_rel_mult)
  moreover have "(1::rat) \<le> 1 * ?c" by simp
  ultimately have "d1 + 1 \<le> of_int D * ?c + 1 * ?c" by linarith
  then have s1: "d1 + 1 \<le> ?E * ?c" by (simp add: algebra_simps)
  have R0: "0 \<le> R" unfolding R_def using d10 by (intro rnd_nonneg) simp
  have "R \<le> (d1 + 1) * ?c" unfolding R_def using d10 by (intro rnd_rel_mult) simp
  also have "\<dots> \<le> ?E * ?c * ?c" using s1 c(2) by (rule mult_right_mono)
  finally have s2: "R \<le> ?E * ?c * ?c" .
  have x0: "0 \<le> x" unfolding x_def using assms(1) R0 by simp
  have "x \<le> 2147483647 / 2147483648 * R"
    unfolding x_def using assms(2) R0 by (rule mult_right_mono)
  also have "\<dots> \<le> 2147483647 / 2147483648 * (?E * ?c * ?c)"
    using s2 by (intro mult_left_mono) simp_all
  finally have s3: "x \<le> 2147483647 / 2147483648 * (?E * ?c * ?c)" .
  have "rnd x < ?E"
  proof (cases "x \<le> 1")
    case True
    with x0 have "rnd x \<le> 1" by (rule rnd_le_one)
    with E(2) show ?thesis by linarith
  next
    case False
    then have "1 \<le> x" by simp
    then have "rnd x \<le> x * ?c" by (rule rnd_rel_mult)
    also have "\<dots> \<le> 2147483647 / 2147483648 * (?E * ?c * ?c) * ?c"
      using s3 c(2) by (rule mult_right_mono)
    also have "\<dots> = ?E * (2147483647 / 2147483648 * (?c * (?c * ?c)))"
      by (simp only: mult_ac)
    also have "\<dots> < ?E * 1"
      using E(2) slack by (intro mult_strict_left_mono) simp_all
    finally show ?thesis by simp
  qed
  then show ?thesis by (simp only: x_def R_def d1_def)
qed

lemma nextInt_range:
  assumes "valid g" "mn \<le> mx" "double (of_int mn)" "double (of_int mx)"
    and "js_add (js_sub (Fin (of_int mx)) (Fin (of_int mn))) (Fin 1) \<noteq> PosInf"
  shows "\<exists>k. nextInt (Fin (of_int mn)) (Fin (of_int mx)) g = Inr (Fin (of_int k), snd (next g))
           \<and> mn \<le> k \<and> k \<le> mx"
proof -
  let ?a = "of_int mn :: rat"
  let ?b = "of_int mx :: rat"
  define D where "D = mx - mn"
  have D0: "0 \<le> D" using assms(2) by (simp add: D_def)
  from next_value(1)[OF assms(1)] obtain u where
    u: "fst (next g) = Fin u" "0 \<le> u" "u \<le> 2147483647 / 2147483648"
    by blast
  define d1 where "d1 = rnd (of_int D)"
  define R where "R = rnd (d1 + 1)"
  define p where "p = rnd (u * R)"
  define v where "v = \<lfloor>p\<rfloor>"
  have sub: "js_sub (Fin ?b) (Fin ?a) = fl (of_int D)"
    by (simp add: js_sub_def D_def)
  have d10: "0 \<le> d1" unfolding d1_def using D0 by (intro rnd_nonneg) simp
  have d1h: "d1 < huge"
  proof (rule ccontr)
    assume "\<not> d1 < huge"
    then have "huge \<le> rnd (of_int D)" by (simp add: d1_def)
    then have "fl (of_int D) = PosInf" by (rule fl_PosInf)
    then show False using assms(5) by (simp add: sub)
  qed
  have f1: "fl (of_int D) = Fin d1"
    unfolding d1_def using d10 d1h huge_pos by (intro fl_Fin) (simp_all add: d1_def)
  have range0: "js_add (js_sub (Fin ?b) (Fin ?a)) (Fin 1) = fl (d1 + 1)"
    by (simp add: sub f1)
  have R0: "0 \<le> R" unfolding R_def using d10 by (intro rnd_nonneg) simp
  have Rh: "R < huge"
  proof (rule ccontr)
    assume "\<not> R < huge"
    then have "huge \<le> rnd (d1 + 1)" by (simp add: R_def)
    then have "fl (d1 + 1) = PosInf" by (rule fl_PosInf)
    then show False using assms(5) by (simp add: range0)
  qed
  have f2: "fl (d1 + 1) = Fin R"
    unfolding R_def using R0 Rh huge_pos by (intro fl_Fin) (simp_all add: R_def)
  have range: "js_add (js_sub (Fin ?b) (Fin ?a)) (Fin 1) = Fin R"
    by (simp only: range0 f2)
  have p0: "0 \<le> p" unfolding p_def using u(2) R0 by (intro rnd_nonneg) simp
  have pD: "p < of_int D + 1"
    unfolding p_def R_def d1_def using u(2,3) D0 by (rule rnd_draw)
  have Dh: "of_int D < huge"
  proof (rule ccontr)
    assume "\<not> of_int D < huge"
    then have "huge \<le> rnd (of_int D)" by (intro rnd_huge) simp
    then show False using d1h by (simp add: d1_def)
  qed
  then have "D < 2 ^ 1024" unfolding huge_int by (simp only: of_int_less_iff)
  then have "D + 1 \<le> 2 ^ 1024" by simp
  then have "(of_int (D + 1) :: rat) \<le> of_int (2 ^ 1024)" by (simp only: of_int_le_iff)
  then have "(of_int D :: rat) + 1 \<le> huge" unfolding huge_int by simp
  with pD have ph: "p < huge" by linarith
  have f3: "fl (u * R) = Fin p"
    unfolding p_def using p0 ph huge_pos by (intro fl_Fin) (simp_all add: p_def)
  have prod: "js_mul (Fin u) (Fin R) = Fin p"
    by (simp add: f3)
  have v0: "0 \<le> v" using p0 by (simp add: v_def)
  have "p < of_int (D + 1)" using pD by simp
  then have "v < D + 1" unfolding v_def by (simp only: floor_less_iff)
  then have vD: "v \<le> D" by simp
  have flo: "Math_floor (Fin p) = Fin (of_int v)" by (simp add: v_def)
  let ?y = "of_int (v + mn) :: rat"
  have y: "?a \<le> ?y" "?y \<le> ?b" using v0 vD by (simp_all add: D_def)
  have ra: "rnd ?a = ?a" and rb: "rnd ?b = ?b"
    and ha: "\<bar>?a\<bar> < huge" and hb: "\<bar>?b\<bar> < huge"
    using assms(3,4) by (simp_all add: double_def)
  have lo: "?a \<le> rnd ?y" using ra y(1) by (rule rnd_ge_fix)
  have hi: "rnd ?y \<le> ?b" using rb y(2) by (rule rnd_le_fix)
  have "- huge < rnd ?y" "rnd ?y < huge" using lo hi ha hb by linarith+
  then have f4: "fl ?y = Fin (rnd ?y)" by (rule fl_Fin)
  obtain m where m: "rnd ?y = of_int m" using rnd_int by blast
  have sum: "js_add (Fin (of_int v)) (Fin ?a) = Fin (of_int m)"
    using f4 m by simp
  have nl: "js_lt (Fin ?b) (Fin ?a) = False" using assms(2) by simp
  have "nextInt (Fin ?a) (Fin ?b) g = Inr (Fin (of_int m), snd (next g))"
    unfolding nextInt_def Let_def split_beta range
    by (simp only: nl if_False u(1) prod flo sum)
  moreover have "mn \<le> m" "m \<le> mx"
    using lo hi unfolding m by (simp_all only: of_int_le_iff)
  ultimately show ?thesis by blast
qed

section \<open>The reference value\<close>

text \<open>
  After \<open>n\<close> draws the seed \<open>k\<close> has become \<open>k * 48271^n mod (2^31 - 1)\<close>; the power for
  \<open>n = 9999\<close> is computed by repeated squaring.
\<close>

lemma pow_dbl: "(a::int) ^ (2 * n) mod m = ((a ^ n mod m) * (a ^ n mod m)) mod m"
  by (simp only: mult_2 power_add mod_mult_eq)

lemma pow_dbl1: "(a::int) ^ Suc (2 * n) mod m = (((a ^ n mod m) * (a ^ n mod m)) mod m * a) mod m"
proof -
  have "(a::int) ^ Suc (2 * n) = a ^ (2 * n) * a" by simp
  then have "a ^ Suc (2 * n) mod m = ((a ^ (2 * n) mod m) * a) mod m"
    by (simp only: mod_mult_left_eq)
  then show ?thesis by (simp only: pow_dbl)
qed

lemma pow_9999: "(48271::int) ^ 9999 mod 2147483647 = 1493962164"
proof -
  define pw :: "nat \<Rightarrow> int" where "pw n = 48271 ^ n mod 2147483647" for n
  have dbl: "pw (2 * n) = (pw n * pw n) mod 2147483647" for n
    unfolding pw_def by (rule pow_dbl)
  have dbl1: "pw (Suc (2 * n)) = ((pw n * pw n) mod 2147483647 * 48271) mod 2147483647" for n
    unfolding pw_def by (rule pow_dbl1)
  have p1: "pw (Suc 0) = 48271" unfolding pw_def by simp
  have p2: "pw 2 = 182605794"
    using dbl[of 1] by (simp add: p1)
  have p4: "pw 4 = 1914720637"
    using dbl[of 2] by (simp add: p2)
  have p9: "pw 9 = 564586691"
    using dbl1[of 4] by (simp add: p4)
  have p19: "pw 19 = 1559527823"
    using dbl1[of 9] by (simp add: p9)
  have p39: "pw 39 = 1272185027"
    using dbl1[of 19] by (simp add: p19)
  have p78: "pw 78 = 837051536"
    using dbl[of 39] by (simp add: p39)
  have p156: "pw 156 = 2071152004"
    using dbl[of 78] by (simp add: p78)
  have p312: "pw 312 = 1451777401"
    using dbl[of 156] by (simp add: p156)
  have p624: "pw 624 = 2033250834"
    using dbl[of 312] by (simp add: p312)
  have p1249: "pw 1249 = 534684260"
    using dbl1[of 624] by (simp add: p624)
  have p2499: "pw 2499 = 792402129"
    using dbl1[of 1249] by (simp add: p1249)
  have p4999: "pw 4999 = 1306692870"
    using dbl1[of 2499] by (simp add: p2499)
  have p9999: "pw 9999 = 1493962164"
    using dbl1[of 4999] by (simp add: p4999)
  show ?thesis using p9999 unfolding pw_def .
qed

lemma advance_seed:
  assumes "seed g = Fin (of_int k)" "1 \<le> k" "k \<le> 2147483646"
  shows "seed (advance n g) = Fin (of_int ((k * 48271 ^ n) mod 2147483647))"
  using assms
proof (induction n arbitrary: g k)
  case 0
  then show ?case by simp
next
  case (Suc n)
  let ?k' = "(k * 48271) mod 2147483647"
  have s: "seed (snd (next g)) = Fin (of_int ?k')"
    using next_of_int[OF Suc.prems] by simp
  have "seed (advance n (snd (next g))) = Fin (of_int ((?k' * 48271 ^ n) mod 2147483647))"
    using Suc.IH[OF s] lcg_range[OF Suc.prems(2,3)] by blast
  moreover have "(?k' * 48271 ^ n) mod 2147483647 = (k * 48271 ^ Suc n) mod 2147483647"
    by (simp add: mod_mult_left_eq mult.assoc)
  ultimately show ?case by simp
qed

lemma new_Fin_1: "new_SeededRandom (Fin 1) = \<lparr>seed = Fin 1\<rparr>"
  by (simp add: new_SeededRandom_def js_or_def js_ge_def js_strict_eq_def MODULUS_def)

text \<open>
  C2: starting from seed \<open>1\<close>, after the \<open>9999\<close> calls of \<^verbatim>\<open>next()\<close> that
  \<^verbatim>\<open>SeededRandom.verify()\<close> performs, the internal seed is the constant
  \<^verbatim>\<open>CHECK = 1493962164\<close>, and \<^verbatim>\<open>verify()\<close> returns true.
\<close>

theorem verify_true: "getSeed (advance 9999 (new_SeededRandom (Fin 1))) = CHECK \<and> verify"
proof -
  have "seed (new_SeededRandom (Fin 1)) = Fin (of_int 1)"
    by (simp add: new_Fin_1)
  then have "seed (advance 9999 (new_SeededRandom (Fin 1)))
             = Fin (of_int ((1 * 48271 ^ 9999) mod 2147483647))"
    by (rule advance_seed) simp_all
  then have "seed (advance 9999 (new_SeededRandom (Fin 1))) = Fin (of_int 1493962164)"
    by (simp only: mult_1 pow_9999)
  then show ?thesis
    by (simp add: verify_def getSeed_def CHECK_def js_strict_eq_def)
qed

section \<open>Seeding\<close>

lemma new_NaN: "new_SeededRandom NaN = \<lparr>seed = Fin 1\<rparr>"
  by (simp add: new_SeededRandom_def js_or_def js_ge_def js_strict_eq_def MODULUS_def)

lemma new_Fin:
  "\<exists>k::int. new_SeededRandom (Fin q) = \<lparr>seed = Fin (of_int k)\<rparr> \<and> 1 \<le> k \<and> k \<le> 2147483646"
proof -
  define n :: int where "n = \<bar>\<lfloor>q\<rfloor>\<bar>"
  define n1 :: int where "n1 = (if n = 0 then 1 else n)"
  define n2 :: int where "n2 = (if 2147483647 \<le> n1 then n1 mod 2147483647 else n1)"
  define n3 :: int where "n3 = (if n2 = 0 then 1 else n2)"
  have "0 \<le> n" by (simp add: n_def)
  then have n1: "1 \<le> n1" by (auto simp: n1_def)
  have s1: "js_or (Math_abs (Math_floor (Fin q))) (Fin 1) = Fin (of_int n1)"
    by (simp add: js_or_def n1_def n_def)
  have s2: "(if js_ge (Fin (of_int n1)) MODULUS then js_mod (Fin (of_int n1)) MODULUS
             else Fin (of_int n1)) = Fin (of_int n2)"
  proof (cases "2147483647 \<le> n1")
    case True
    then have "js_ge (Fin (of_int n1)) MODULUS"
      by (simp add: js_ge_def MODULUS_def not_less)
    moreover have "js_mod (Fin (of_int n1)) MODULUS = Fin (of_int (n1 mod 2147483647))"
      using js_mod_of_int[of n1 2147483647] n1 by (simp add: MODULUS_def)
    ultimately show ?thesis using True by (simp add: n2_def)
  next
    case False
    then have "\<not> js_ge (Fin (of_int n1)) MODULUS"
      by (simp add: js_ge_def MODULUS_def)
    then show ?thesis using False by (simp add: n2_def)
  qed
  have s3: "(if js_strict_eq (Fin (of_int n2)) (Fin 0) then Fin 1 else Fin (of_int n2)) = Fin (of_int n3)"
    by (simp add: js_strict_eq_def n3_def)
  have "new_SeededRandom (Fin q) = \<lparr>seed = Fin (of_int n3)\<rparr>"
    unfolding new_SeededRandom_def Let_def s1 s2 s3 ..
  moreover have "n1 mod 2147483647 < 2147483647"
    by simp
  then have "0 \<le> n2 \<and> n2 \<le> 2147483646"
    using n1 by (auto simp: n2_def)
  then have "1 \<le> n3 \<and> n3 \<le> 2147483646"
    by (simp add: n3_def)
  ultimately show ?thesis by blast
qed

lemma new_SeededRandom_valid:
  assumes "s \<noteq> PosInf" "s \<noteq> NegInf"
  shows "valid (new_SeededRandom s)"
proof (cases s)
  case (Fin q)
  then show ?thesis using new_Fin[of q] by (auto simp: valid_iff)
next
  case NaN
  then show ?thesis by (simp add: new_NaN valid_def)
qed (use assms in simp_all)

lemma new_Fin_0: "new_SeededRandom (Fin 0) = \<lparr>seed = Fin 1\<rparr>"
  by (simp add: new_SeededRandom_def js_or_def js_ge_def js_strict_eq_def MODULUS_def)

text \<open>
  C4: for every number \<open>n\<close> of draws, a generator constructed with seed \<open>0\<close> and one
  constructed with seed \<open>1\<close> produce the same sequence of \<open>n\<close> values of \<^verbatim>\<open>next()\<close>.
\<close>

theorem seed_0_and_1_same_stream:
  "draws n (new_SeededRandom (Fin 0)) = draws n (new_SeededRandom (Fin 1))"
  by (simp add: new_Fin_0 new_Fin_1)

lemma reset_Some: "reset (Some s) g = new_SeededRandom s"
  by (simp add: reset_def new_SeededRandom_def Let_def)

text \<open>
  C10: \<^verbatim>\<open>reset()\<close> without argument leaves the generator as it is (it does not go
  back to the seed of construction), so the draws continue where they were; \<^verbatim>\<open>reset(s)\<close>
  with a seed \<open>s\<close> puts the generator in the state of a fresh \<^verbatim>\<open>new SeededRandom(s)\<close>,
  and the draws that follow are those of that fresh generator.
\<close>

theorem reset_frame:
  "reset None g = g \<and> draws n (reset None g) = draws n g
   \<and> reset (Some s) g = new_SeededRandom s
   \<and> draws n (reset (Some s) g) = draws n (new_SeededRandom s)"
  by (simp add: reset_Some) (simp add: reset_def)

section \<open>The shuffle\<close>

text \<open>
  The loop invariant: the elements of the array are those of the initial array read
  through a permutation of its positions. Each swap composes the permutation with a
  transposition.
\<close>

lemma length_transposition [simp]: "length (transposition n i j) = n"
  by (simp add: transposition_def)

lemma mset_transposition:
  assumes "i < n" "j < n"
  shows "mset (transposition n i j) = mset [0..<n]"
proof -
  have "mset ([0..<n][i := [0..<n] ! j, j := [0..<n] ! i]) = mset [0..<n]"
    using assms by (intro mset_swap) simp_all
  then show ?thesis using assms by (simp add: transposition_def)
qed

lemma swap_as_map:
  assumes "i < length e" "j < length e"
  shows "e[i := e ! j, j := e ! i] = map ((!) e) (transposition (length e) i j)"
proof (rule nth_equalityI)
  show "length (e[i := e ! j, j := e ! i]) = length (map ((!) e) (transposition (length e) i j))"
    by simp
next
  fix k assume "k < length (e[i := e ! j, j := e ! i])"
  then have k: "k < length e" by simp
  then show "e[i := e ! j, j := e ! i] ! k = map ((!) e) (transposition (length e) i j) ! k"
    using assms by (auto simp: transposition_def nth_list_update)
qed

lemma map_nth_compose:
  assumes "set ps \<subseteq> {..<length qs}"
  shows "map ((!) (map ((!) e) qs)) ps = map ((!) e) (map ((!) qs) ps)"
  using assms by (auto simp: subset_eq)

lemma mset_indices_set:
  assumes "mset ps = mset [0..<n]"
  shows "set ps = {..<n}" "distinct ps" "length ps = n"
proof -
  show "set ps = {..<n}"
    using mset_eq_setD[OF assms] by (simp add: lessThan_atLeast0)
  show "distinct ps"
    using assms by (metis distinct_upt mset_eq_imp_distinct_iff)
  show "length ps = n"
    using mset_eq_length[OF assms] by simp
qed

lemma mset_map_nth_indices:
  assumes "mset ps = mset [0..<length qs]"
  shows "mset (map ((!) qs) ps) = mset qs"
proof -
  have "mset (map ((!) qs) ps) = image_mset ((!) qs) (mset ps)" by simp
  also have "\<dots> = image_mset ((!) qs) (mset [0..<length qs])" by (simp only: assms)
  also have "\<dots> = mset (map ((!) qs) [0..<length qs])" by simp
  also have "\<dots> = mset qs" by (simp only: map_nth)
  finally show ?thesis .
qed

lemma nextInt_nat:
  assumes "valid g" "n < 9007199254740991"
  shows "\<exists>j. nextInt (Fin 0) (Fin (of_nat n)) g = Inr (Fin (of_int (int j)), snd (next g))
           \<and> j \<le> n"
proof -
  have "\<exists>k. nextInt (Fin (of_int 0)) (Fin (of_int (int n))) g = Inr (Fin (of_int k), snd (next g))
           \<and> 0 \<le> k \<and> k \<le> int n"
    using assms by (intro nextInt_valid) simp_all
  then obtain k where k: "nextInt (Fin 0) (Fin (of_nat n)) g = Inr (Fin (of_int k), snd (next g))"
      "0 \<le> k" "k \<le> int n"
    by auto
  then have "k = int (nat k)" "nat k \<le> n" by simp_all
  with k(1) show ?thesis by metis
qed

lemma shuffle_loop_perm:
  assumes "valid g" "i < length (elems a) \<or> i = 0" "length (elems a) \<le> 4294967295"
  shows "\<exists>ps a'. shuffle_loop i a g = Inr (a', advance i g)
           \<and> mset ps = mset [0..<length (elems a)]
           \<and> elems a' = map ((!) (elems a)) ps \<and> props a' = props a"
  using assms
proof (induction i arbitrary: a g)
  case 0
  have "shuffle_loop 0 a g = Inr (a, advance 0 g)"
    by simp
  moreover have "elems a = map ((!) (elems a)) [0..<length (elems a)]"
    by (simp only: map_nth)
  ultimately show ?case by blast
next
  case (Suc i)
  let ?e = "elems a"
  let ?n = "length ?e"
  from Suc.prems have i: "Suc i < ?n" by simp
  then have "Suc i < 9007199254740991" using Suc.prems(3) by simp
  with Suc.prems(1) obtain j where
    k: "nextInt (Fin 0) (Fin (of_nat (Suc i))) g = Inr (Fin (of_int (int j)), snd (next g))"
    and j: "j \<le> Suc i"
    using nextInt_nat by blast
  have jn: "j < ?n" using i j by simp
  define sw where "sw = transposition ?n (Suc i) j"
  define a1 where "a1 = swap a (Fin (of_nat (Suc i))) (Fin (of_int (int j)))"
  have a1: "a1 = a\<lparr>elems := ?e[Suc i := ?e ! j, j := ?e ! Suc i]\<rparr>"
    unfolding a1_def using i jn by (rule swap_in_range)
  have e1: "elems a1 = map ((!) ?e) sw"
    using swap_as_map[OF i jn] by (simp add: a1 sw_def)
  have len1: "length (elems a1) = ?n" by (simp add: a1)
  have "valid (snd (next g))" using Suc.prems(1) by (rule next_valid(2))
  moreover have "i < length (elems a1) \<or> i = 0" using i len1 by simp
  moreover have "length (elems a1) \<le> 4294967295" using Suc.prems(3) len1 by simp
  ultimately obtain ps1 a' where r:
      "shuffle_loop i a1 (snd (next g)) = Inr (a', advance i (snd (next g)))"
      "mset ps1 = mset [0..<length (elems a1)]"
      "elems a' = map ((!) (elems a1)) ps1" "props a' = props a1"
    using Suc.IH[of "snd (next g)" a1] by blast
  have ps1: "set ps1 \<subseteq> {..<length sw}"
    using mset_indices_set(1)[OF r(2)] len1 by (simp add: sw_def)
  have "shuffle_loop (Suc i) a g = Inr (a', advance (Suc i) g)"
    using k r(1) by (simp add: a1_def)
  moreover have "mset (map ((!) sw) ps1) = mset [0..<?n]"
  proof -
    have "mset ps1 = mset [0..<length sw]" using r(2) len1 by (simp add: sw_def)
    then have "mset (map ((!) sw) ps1) = mset sw" by (rule mset_map_nth_indices)
    also have "\<dots> = mset [0..<?n]"
      unfolding sw_def using i jn by (rule mset_transposition)
    finally show ?thesis .
  qed
  moreover have "elems a' = map ((!) ?e) (map ((!) sw) ps1)"
    unfolding r(3) e1 using ps1 by (rule map_nth_compose)
  moreover have "props a' = props a" using r(4) by (simp add: a1)
  ultimately show ?case by blast
qed

lemma shuffle_perm:
  assumes "valid g" "length xs \<le> 4294967295"
  shows "\<exists>ps. shuffle xs g
              = Inr (array_of (map Some (map ((!) xs) ps)), advance (length xs - 1) g)
            \<and> mset ps = mset [0..<length xs]"
proof -
  let ?a = "array_of (map Some xs)"
  have "length xs - 1 < length (elems ?a) \<or> length xs - 1 = 0"
    by (cases xs) (simp_all add: array_of_def)
  moreover have "length (elems ?a) \<le> 4294967295"
    using assms(2) by (simp add: array_of_def)
  ultimately obtain ps a' where
    r: "shuffle_loop (length xs - 1) ?a g = Inr (a', advance (length xs - 1) g)"
      "mset ps = mset [0..<length (elems ?a)]"
      "elems a' = map ((!) (elems ?a)) ps" "props a' = props ?a"
    using shuffle_loop_perm[OF assms(1), of "length xs - 1" ?a] by blast
  have ps: "mset ps = mset [0..<length xs]"
    using r(2) by (simp add: array_of_def)
  have "set ps = {..<length xs}"
    using ps by (rule mset_indices_set(1))
  then have "map ((!) (map Some xs)) ps = map Some (map ((!) xs) ps)"
    by auto
  then have "elems a' = map Some (map ((!) xs) ps)"
    using r(3) by (simp add: array_of_def)
  moreover have "props a' = (\<lambda>_. None)"
    using r(4) by (simp add: array_of_def)
  ultimately have "a' = array_of (map Some (map ((!) xs) ps))"
    by (simp add: array_of_def)
  with r(1) ps show ?thesis
    unfolding shuffle_def by blast
qed

text \<open>
  For a generator state that satisfies the invariant, \<^verbatim>\<open>shuffle\<close> returns a permutation
  of its input (an array of the language has at most \<open>2^32 - 1\<close> elements).
\<close>

lemma shuffle_permutation_valid:
  assumes "valid g" "length xs \<le> 4294967295"
  shows "\<exists>ys g'. shuffle xs g = Inr (array_of (map Some ys), g') \<and> mset ys = mset xs"
proof -
  from shuffle_perm[OF assms, of] obtain ps where
      ps: "shuffle xs g = Inr (array_of (map Some (map ((!) xs) ps)), advance (length xs - 1) g)"
      "mset ps = mset [0..<length xs]"
    by blast
  have "mset (map ((!) xs) ps) = mset xs"
    using ps(2) by (rule mset_map_nth_indices)
  with ps(1) show ?thesis by blast
qed

section \<open>The frame of the shuffle\<close>

lemma nextInt_0_Suc: "\<exists>j. nextInt (Fin 0) (Fin (of_nat (Suc k))) g = Inr (j, snd (next g))"
proof -
  have "\<not> (of_nat (Suc k) :: rat) < 0" by (simp only: not_less of_nat_0_le_iff)
  then have "js_lt (Fin (of_nat (Suc k))) (Fin 0) = False" by simp
  then show ?thesis
    by (simp only: nextInt_def Let_def split_beta if_False) blast
qed

lemma shuffle_loop_state: "\<exists>a'. shuffle_loop i a g = Inr (a', advance i g)"
proof (induction i arbitrary: a g)
  case 0
  then show ?case by simp
next
  case (Suc i)
  obtain j where "nextInt (Fin 0) (Fin (of_nat (Suc i))) g = Inr (j, snd (next g))"
    using nextInt_0_Suc by blast
  then show ?case using Suc.IH by simp
qed

lemma shuffle_loop_at_eq:
  assumes "r < length h"
  shows "shuffle_loop_at i r h g =
           (case shuffle_loop i (h ! r) g of Inl e \<Rightarrow> Inl e | Inr (a, g') \<Rightarrow> Inr (h[r := a], g'))"
  using assms
proof (induction i arbitrary: h g)
  case 0
  then show ?case by simp
next
  case (Suc i)
  obtain j where j: "nextInt (Fin 0) (Fin (of_nat (Suc i))) g = Inr (j, snd (next g))"
    using nextInt_0_Suc by blast
  let ?h1 = "h[r := swap (h ! r) (Fin (of_nat (Suc i))) j]"
  have "r < length ?h1" using Suc.prems by simp
  from Suc.IH[OF this, of "snd (next g)"] show ?case
    using Suc.prems j by (simp split: sum.split prod.split)
qed

text \<open>
  C9: for every store and every array in it, \<^verbatim>\<open>shuffle\<close> returns a newly allocated array
  (an address the store did not have) and leaves every array of the store, the caller's
  input among them, as it was; besides the new array, the only state it modifies is the
  generator, advanced by the \<open>length - 1\<close> draws of the loop.
\<close>

theorem shuffle_frame:
  assumes "array < length h"
  shows "\<exists>res g'. shuffle_at array h g = Inr (length h, h @ [res], g')
           \<and> length h \<noteq> array
           \<and> (h @ [res]) ! array = h ! array
           \<and> take (length h) (h @ [res]) = h
           \<and> shuffle_loop (length (elems (h ! array)) - 1) (array_of (elems (h ! array))) g
               = Inr (res, g')
           \<and> g' = advance (length (elems (h ! array)) - 1) g"
proof -
  let ?n = "length (elems (h ! array)) - 1"
  let ?copy = "array_of (elems (h ! array))"
  let ?h1 = "h @ [?copy]"
  obtain res where res: "shuffle_loop ?n ?copy g = Inr (res, advance ?n g)"
    using shuffle_loop_state by blast
  have "length h < length ?h1" by simp
  then have "shuffle_loop_at ?n (length h) ?h1 g =
          (case shuffle_loop ?n (?h1 ! length h) g of
             Inl e \<Rightarrow> Inl e | Inr (a, g') \<Rightarrow> Inr (?h1[length h := a], g'))"
    by (rule shuffle_loop_at_eq)
  then have "shuffle_loop_at ?n (length h) ?h1 g = Inr (h @ [res], advance ?n g)"
    using res by simp
  then have "shuffle_at array h g = Inr (length h, h @ [res], advance ?n g)"
    by (simp add: shuffle_at_def Let_def array_of_def)
  moreover have "(h @ [res]) ! array = h ! array"
    using assms by (simp add: nth_append)
  moreover have "length h \<noteq> array"
    using assms by simp
  ultimately show ?thesis using res by auto
qed

section \<open>The invariant of the seed\<close>

text \<open>
  For every finite seed, and for NaN, the constructor establishes the invariant, every
  number of draws keeps it, and every value drawn lies in \<open>[0, 1)\<close>.
\<close>

lemma generator_invariant:
  assumes "s \<noteq> PosInf" "s \<noteq> NegInf"
  shows "valid (advance n (new_SeededRandom s))"
    and "v \<in> set (draws n (new_SeededRandom s)) \<Longrightarrow> \<exists>u. v = Fin u \<and> 0 \<le> u \<and> u < 1"
proof -
  have v: "valid (new_SeededRandom s)"
    using assms by (rule new_SeededRandom_valid)
  then show "valid (advance n (new_SeededRandom s))"
    by (rule advance_valid)
  show "v \<in> set (draws n (new_SeededRandom s)) \<Longrightarrow> \<exists>u. v = Fin u \<and> 0 \<le> u \<and> u < 1"
    using v by (rule draws_unit)
qed

text \<open>
  C3 claims the invariant for every construction seed, any number. The constructor misses
  the infinities: \<^verbatim>\<open>new SeededRandom(Infinity)\<close> passes \<^verbatim>\<open>Math.floor\<close>, \<^verbatim>\<open>Math.abs\<close>
  and \<^verbatim>\<open>|| 1\<close> unchanged, \<^verbatim>\<open>Infinity % MODULUS\<close> is NaN, and \<^verbatim>\<open>NaN === 0\<close> is false:
  the seed is NaN, outside \<open>[1, 2^31 - 2]\<close>, and \<^verbatim>\<open>next()\<close> returns NaN, outside \<open>[0, 1)\<close>.
\<close>

theorem seed_Infinity:
  "new_SeededRandom PosInf = \<lparr>seed = NaN\<rparr> \<and> \<not> valid (new_SeededRandom PosInf)
   \<and> next (new_SeededRandom PosInf) = (NaN, \<lparr>seed = NaN\<rparr>)
   \<and> new_SeededRandom NegInf = \<lparr>seed = NaN\<rparr>"
  by (simp add: new_SeededRandom_def next_def valid_def js_or_def js_ge_def js_strict_eq_def
        js_sub_def MODULUS_def MULTIPLIER_def)

section \<open>Runs on concrete seeds\<close>

text \<open>
  A draw on a concrete seed is computed step by step: the next seed, the double returned
  by \<^verbatim>\<open>next()\<close>, and the floor of its rounded product with the range.
\<close>

lemma array_index_0 [simp]: "array_index (Fin 0) = Some 0"
  by (simp add: array_index_def)

lemma array_index_1 [simp]: "array_index (Fin 1) = Some 1"
  by (simp add: array_index_def)

lemma array_index_numeral [simp]: "array_index (Fin (numeral n)) = Some (numeral n)"
  by (simp add: array_index_def)

lemma array_index_NaN [simp]: "array_index NaN = None"
  by (simp add: array_index_def)

lemma new_30000: "new_SeededRandom (Fin 30000) = \<lparr>seed = Fin 30000\<rparr>"
  by (simp add: new_SeededRandom_def js_or_def js_ge_def js_strict_eq_def MODULUS_def)

lemma draw_30000:
  "nextInt (Fin 0) (Fin (of_nat 2)) \<lparr>seed = Fin 30000\<rparr> = Inr (Fin 2, \<lparr>seed = Fin 1448130000\<rparr>)"
proof -
  have u: "rnd (of_int (1448130000 - 1) / 2147483646) = 3036948726491227 / 4503599627370496"
    by code_simp
  have j: "\<lfloor>rnd (3036948726491227 / 4503599627370496 * of_int (int 2 + 1))\<rfloor> = 2"
    by code_simp
  have "nextInt (Fin 0) (Fin (of_nat 2)) \<lparr>seed = Fin 30000\<rparr>
          = Inr (Fin (of_int 2), \<lparr>seed = Fin 30000\<rparr>\<lparr>seed := Fin (of_int 1448130000)\<rparr>)"
    using _ _ _ _ u _ j
    by (rule nextInt_eval[where k = 30000]) simp_all
  then show ?thesis by simp
qed

lemma draw_1448130000:
  "nextInt (Fin 0) (Fin (of_nat 1)) \<lparr>seed = Fin 1448130000\<rparr>
     = Inr (Fin 1, \<lparr>seed = Fin 2090520150\<rparr>)"
proof -
  have u: "rnd (of_int (2090520150 - 1) / 2147483646) = 4384138515598695 / 4503599627370496"
    by code_simp
  have j: "\<lfloor>rnd (4384138515598695 / 4503599627370496 * of_int (int 1 + 1))\<rfloor> = 1"
    by code_simp
  have "nextInt (Fin 0) (Fin (of_nat 1)) \<lparr>seed = Fin 1448130000\<rparr>
          = Inr (Fin (of_int 1), \<lparr>seed = Fin 1448130000\<rparr>\<lparr>seed := Fin (of_int 2090520150)\<rparr>)"
    using _ _ _ _ u _ j
    by (rule nextInt_eval[where k = 1448130000]) simp_all
  then show ?thesis by simp
qed

lemma shuffle_1_1_2:
  "shuffle [1, 1, 2::int] (new_SeededRandom (Fin 30000))
     = Inr (array_of [Some 1, Some 1, Some 2], \<lparr>seed = Fin 2090520150\<rparr>)"
proof -
  have "shuffle_loop (Suc (Suc 0)) (array_of [Some (1::int), Some 1, Some 2]) \<lparr>seed = Fin 30000\<rparr>
          = Inr (array_of [Some 1, Some 1, Some 2], \<lparr>seed = Fin 2090520150\<rparr>)"
    using draw_30000 draw_1448130000
    by (simp add: swap_def array_get_def array_set_def array_of_def Let_def numeral_2_eq_2)
  then show ?thesis
    by (simp add: shuffle_def new_30000 numeral_2_eq_2)
qed

lemma new_42: "new_SeededRandom (Fin 42) = \<lparr>seed = Fin 42\<rparr>"
  by (simp add: new_SeededRandom_def js_or_def js_ge_def js_strict_eq_def MODULUS_def)

lemma next_42:
  "next \<lparr>seed = Fin 42\<rparr>
     = (Fin (2176883774910325 / 2305843009213693952), \<lparr>seed = Fin 2027382\<rparr>)"
proof -
  have u: "rnd (of_int (42 * 48271 mod 2147483647 - 1) / 2147483646)
             = 2176883774910325 / 2305843009213693952"
    by code_simp
  have "next \<lparr>seed = Fin 42\<rparr>
          = (Fin (rnd (of_int (42 * 48271 mod 2147483647 - 1) / 2147483646)),
             \<lparr>seed = Fin 42\<rparr>\<lparr>seed := Fin (of_int (42 * 48271 mod 2147483647))\<rparr>)"
    by (rule next_of_int) simp_all
  then show ?thesis by (simp only: u) simp
qed

lemma draw_42:
  "nextInt (Fin 0) (Fin (of_nat 2)) \<lparr>seed = Fin 42\<rparr> = Inr (Fin 0, \<lparr>seed = Fin 2027382\<rparr>)"
proof -
  have u: "rnd (of_int (2027382 - 1) / 2147483646) = 2176883774910325 / 2305843009213693952"
    by code_simp
  have j: "\<lfloor>rnd (2176883774910325 / 2305843009213693952 * of_int (int 2 + 1))\<rfloor> = 0"
    by code_simp
  have "nextInt (Fin 0) (Fin (of_nat 2)) \<lparr>seed = Fin 42\<rparr>
          = Inr (Fin (of_int 0), \<lparr>seed = Fin 42\<rparr>\<lparr>seed := Fin (of_int 2027382)\<rparr>)"
    using _ _ _ _ u _ j
    by (rule nextInt_eval[where k = 42]) simp_all
  then show ?thesis by simp
qed

lemma draw_2027382:
  "nextInt (Fin 0) (Fin (of_nat 1)) \<lparr>seed = Fin 2027382\<rparr>
     = Inr (Fin 1, \<lparr>seed = Fin 1226992407\<rparr>)"
proof -
  have u: "rnd (of_int (1226992407 - 1) / 2147483646) = 5146379161248363 / 9007199254740992"
    by code_simp
  have j: "\<lfloor>rnd (5146379161248363 / 9007199254740992 * of_int (int 1 + 1))\<rfloor> = 1"
    by code_simp
  have "nextInt (Fin 0) (Fin (of_nat 1)) \<lparr>seed = Fin 2027382\<rparr>
          = Inr (Fin (of_int 1), \<lparr>seed = Fin 2027382\<rparr>\<lparr>seed := Fin (of_int 1226992407)\<rparr>)"
    using _ _ _ _ u _ j
    by (rule nextInt_eval[where k = 2027382]) simp_all
  then show ?thesis by simp
qed

lemma shuffle_loop_42:
  "shuffle_loop (Suc (Suc 0)) (array_of [Some (1::int), Some 2, Some 3]) \<lparr>seed = Fin 42\<rparr>
     = Inr (array_of [Some 3, Some 2, Some 1], \<lparr>seed = Fin 1226992407\<rparr>)"
  using draw_42 draw_2027382
  by (simp add: swap_def array_get_def array_set_def array_of_def Let_def numeral_2_eq_2)

theorem shuffle_frame_witness:
  "\<exists>res g'. shuffle_at 0 [array_of [Some (1::int), Some 2, Some 3]] (new_SeededRandom (Fin 42))
              = Inr (1, [array_of [Some 1, Some 2, Some 3]] @ [res], g')
     \<and> ([array_of [Some 1, Some 2, Some 3]] @ [res]) ! 0 = array_of [Some 1, Some 2, Some 3]
     \<and> elems res = [Some 3, Some 2, Some 1]"
proof -
  let ?h = "[array_of [Some (1::int), Some 2, Some 3]]"
  let ?g = "new_SeededRandom (Fin 42)"
  have l: "(0::nat) < length ?h" by simp
  from shuffle_frame[OF l, of ?g] obtain res g' where
    r: "shuffle_at 0 ?h ?g = Inr (length ?h, ?h @ [res], g')"
       "(?h @ [res]) ! 0 = ?h ! 0"
       "shuffle_loop (length (elems (?h ! 0)) - 1) (array_of (elems (?h ! 0))) ?g = Inr (res, g')"
    by blast
  have "shuffle_loop (length (elems (?h ! 0)) - 1) (array_of (elems (?h ! 0))) ?g
          = Inr (array_of [Some 3, Some 2, Some 1], \<lparr>seed = Fin 1226992407\<rparr>)"
    using shuffle_loop_42 by (simp add: new_42 array_of_def)
  then have "Inr (res, g') = (Inr (array_of [Some 3, Some 2, Some 1], \<lparr>seed = Fin 1226992407\<rparr>)
               :: thrown + int array \<times> SeededRandom)"
    by (simp only: r(3))
  then have "res = array_of [Some 3, Some 2, Some 1]"
    by (simp only: sum.inject prod.inject)
  then have "elems res = [Some 3, Some 2, Some 1]"
    by (simp add: array_of_def)
  with r(1,2) show ?thesis by auto
qed

text \<open>
  C5 claims the permutation for every generator state. The state that
  \<^verbatim>\<open>new SeededRandom(Infinity)\<close> builds has the seed NaN: every index drawn is NaN, the
  swap reads \<^verbatim>\<open>result[NaN]\<close>, which is \<^verbatim>\<open>undefined\<close>, into \<^verbatim>\<open>result[i]\<close> and writes the
  element to the property \<^verbatim>\<open>NaN\<close> of the array. \<^verbatim>\<open>shuffle([1, 2, 3])\<close> returns
  \<^verbatim>\<open>[1, 3, undefined]\<close>, which is not a permutation of the input.
\<close>

theorem shuffle_Infinity:
  "shuffle [1, 2, 3::int] (new_SeededRandom PosInf)
     = Inr (\<lparr>elems = [Some 1, Some 3, None], props = (\<lambda>_. None)(NaN := Some 2)\<rparr>,
            \<lparr>seed = NaN\<rparr>)
   \<and> mset [Some 1, Some 3, None] \<noteq> mset (map Some [1, 2, 3::int])"
proof -
  have g: "new_SeededRandom PosInf = \<lparr>seed = NaN\<rparr>"
    by (simp add: new_SeededRandom_def js_or_def js_ge_def js_strict_eq_def MODULUS_def)
  have n: "next \<lparr>seed = NaN\<rparr> = (NaN, \<lparr>seed = NaN\<rparr>)"
    by (simp add: next_def js_sub_def)
  have d: "nextInt (Fin 0) (Fin (of_nat k)) \<lparr>seed = NaN\<rparr> = Inr (NaN, \<lparr>seed = NaN\<rparr>)" for k
  proof -
    have "\<not> (of_nat k :: rat) < 0" by (simp only: not_less of_nat_0_le_iff)
    then have "js_lt (Fin (of_nat k)) (Fin 0) = False" by simp
    then show ?thesis
      by (simp only: nextInt_def Let_def split_beta if_False n fst_conv snd_conv
            js_mul.simps Math_floor.simps js_add.simps)
  qed
  have "shuffle_loop (Suc (Suc 0)) (array_of [Some (1::int), Some 2, Some 3]) \<lparr>seed = NaN\<rparr>
          = Inr (\<lparr>elems = [Some 1, Some 3, None], props = (\<lambda>_. None)(NaN := Some 2)\<rparr>,
                 \<lparr>seed = NaN\<rparr>)"
    using d[of 2] d[of 1]
    by (simp add: swap_def array_get_def array_set_def array_of_def Let_def numeral_2_eq_2)
  then have "shuffle [1, 2, 3::int] (new_SeededRandom PosInf)
     = Inr (\<lparr>elems = [Some 1, Some 3, None], props = (\<lambda>_. None)(NaN := Some 2)\<rparr>,
            \<lparr>seed = NaN\<rparr>)"
    by (simp add: shuffle_def g numeral_2_eq_2)
  moreover have "mset [Some 1, Some 3, None] \<noteq> mset (map Some [1, 2, 3::int])"
  proof
    assume "mset [Some 1, Some 3, None] = mset (map Some [1, 2, 3::int])"
    then have "set [Some 1, Some 3, None] = set (map Some [1, 2, 3::int])"
      by (rule mset_eq_setD)
    then show False by auto
  qed
  ultimately show ?thesis by blast
qed

lemma shuffle_loop_returns: "\<exists>r. shuffle_loop i a g = Inr r"
  using shuffle_loop_state by blast

lemma sample_throws:
  "(\<exists>e. sample xs n g = Inl e) \<longleftrightarrow> (js_lt (array_length xs) n \<or> js_lt n (Fin 0))"
proof -
  obtain r where "shuffle xs g = Inr r"
    unfolding shuffle_def using shuffle_loop_returns by blast
  then show ?thesis
    by (auto simp: sample_def split: prod.splits)
qed

lemma trunc_of_int [simp]: "trunc (of_int k) = k"
  by (simp add: trunc_def)

text \<open>
  For a generator state that satisfies the invariant and an integer \<open>0 \<le> n \<le> length xs\<close>,
  \<^verbatim>\<open>sample(xs, n)\<close> returns \<open>n\<close> elements of \<open>xs\<close> taken at pairwise distinct positions.
\<close>

lemma sample_positions:
  assumes "valid g" "0 \<le> n" "n \<le> int (length xs)" "length xs \<le> 4294967295"
  shows "\<exists>ps g'. sample xs (Fin (of_int n)) g = Inr (array_of (map Some (map ((!) xs) ps)), g')
           \<and> length ps = nat n \<and> distinct ps \<and> set ps \<subseteq> {..<length xs}
           \<and> set (map ((!) xs) ps) \<subseteq> set xs"
proof -
  obtain ps where
      ps: "shuffle xs g = Inr (array_of (map Some (map ((!) xs) ps)), advance (length xs - 1) g)"
      "mset ps = mset [0..<length xs]"
    using shuffle_perm[OF assms(1,4)] by blast
  note idx = mset_indices_set[OF ps(2)]
  let ?qs = "take (nat n) ps"
  have "\<not> js_lt (array_length xs) (Fin (of_int n))"
  proof -
    have "(of_int n :: rat) \<le> of_int (int (length xs))"
      using assms(3) by (simp only: of_int_le_iff)
    then show ?thesis by (simp add: array_length_def not_less)
  qed
  moreover have "\<not> js_lt (Fin (of_int n)) (Fin 0)" using assms(2) by simp
  ultimately have "sample xs (Fin (of_int n)) g
        = Inr (array_of (map Some (map ((!) xs) ?qs)), advance (length xs - 1) g)"
    using assms(2) ps(1) by (simp add: sample_def slice0_def array_of_def take_map)
  moreover have "length ?qs = nat n"
  proof -
    have "nat n \<le> length xs" using assms(3) by linarith
    then show ?thesis using idx(3) by simp
  qed
  moreover have "distinct ?qs"
    using idx(2) by simp
  moreover have sub: "set ?qs \<subseteq> {..<length xs}"
    using idx(1) set_take_subset[of "nat n" ps] by simp
  moreover have "set (map ((!) xs) ?qs) \<subseteq> set xs"
    using sub by auto
  ultimately show ?thesis by blast
qed

text \<open>
  C6 claims no duplicates as soon as \<open>xs\<close> has at least \<open>n\<close> distinct values. The array
  \<open>[1, 1, 2]\<close> has two distinct values; with seed \<open>30000\<close> the two draws of the shuffle are
  the indices \<open>2\<close> and \<open>1\<close>, both swaps leave the array as it is, and the sample of size
  two is \<open>[1, 1]\<close>.
\<close>

theorem sample_duplicates:
  "sample [1, 1, 2::int] (Fin 2) (new_SeededRandom (Fin 30000))
     = Inr (array_of [Some 1, Some 1], \<lparr>seed = Fin 2090520150\<rparr>)
   \<and> 2 \<le> card (set [1, 1, 2::int]) \<and> \<not> distinct [1, 1::int]"
proof -
  have "trunc 2 = 2" using trunc_of_int[of 2] by simp
  then have "sample [1, 1, 2::int] (Fin 2) (new_SeededRandom (Fin 30000))
          = Inr (array_of [Some 1, Some 1], \<lparr>seed = Fin 2090520150\<rparr>)"
    by (simp add: sample_def shuffle_1_1_2 array_length_def slice0_def array_of_def)
  moreover have "card (set [1, 1, 2::int]) = 2" by simp
  ultimately show ?thesis by simp
qed

section \<open>Ranged integers and choice\<close>

lemma double_int:
  assumes "\<bar>n\<bar> < 9007199254740992"
  shows "double (of_int n)"
proof -
  have "(of_int \<bar>n\<bar> :: rat) < of_int 9007199254740992"
    using assms by (simp only: of_int_less_iff)
  then have "\<bar>of_int n :: rat\<bar> < huge" using huge_gt by simp
  then show ?thesis using rnd_of_int[OF assms] by (simp add: double_def)
qed

text \<open>
  C7, as the code has it. \<^verbatim>\<open>nextInt(min, max)\<close> throws exactly when \<^verbatim>\<open>min > max\<close> holds
  (a comparison that is false when a bound is NaN), and what it throws is a plain
  \<^verbatim>\<open>Error\<close>. For integers \<open>min \<le> max\<close> (numbers of the language) whose range
  \<^verbatim>\<open>max - min + 1\<close>, as the code computes it, is not \<^verbatim>\<open>Infinity\<close>, and a generator state
  that satisfies the invariant, it returns an integer in \<open>[min, max]\<close>.
\<close>

theorem nextInt_spec:
  "((\<exists>e. nextInt mn mx g = Inl e) \<longleftrightarrow> js_lt mx mn) \<and>
   (js_lt mx mn \<longrightarrow> (\<exists>e. nextInt mn mx g = Inl e \<and> name e = ''Error'')) \<and>
   (valid g \<and> a \<le> b \<and> double (of_int a) \<and> double (of_int b)
      \<and> js_add (js_sub (Fin (of_int b)) (Fin (of_int a))) (Fin 1) \<noteq> PosInf \<longrightarrow>
      (\<exists>k g'. nextInt (Fin (of_int a)) (Fin (of_int b)) g = Inr (Fin (of_int k), g')
         \<and> a \<le> k \<and> k \<le> b))"
proof (intro conjI impI)
  show "(\<exists>e. nextInt mn mx g = Inl e) \<longleftrightarrow> js_lt mx mn"
    by (rule nextInt_throws)
next
  assume "js_lt mx mn"
  then show "\<exists>e. nextInt mn mx g = Inl e \<and> name e = ''Error''"
    by (simp add: nextInt_def Error_def)
next
  assume h: "valid g \<and> a \<le> b \<and> double (of_int a) \<and> double (of_int b)
      \<and> js_add (js_sub (Fin (of_int b)) (Fin (of_int a))) (Fin 1) \<noteq> PosInf"
  then have "\<exists>k. nextInt (Fin (of_int a)) (Fin (of_int b)) g = Inr (Fin (of_int k), snd (next g))
           \<and> a \<le> k \<and> k \<le> b"
    by (intro nextInt_range) simp_all
  then show "\<exists>k g'. nextInt (Fin (of_int a)) (Fin (of_int b)) g = Inr (Fin (of_int k), g')
         \<and> a \<le> k \<and> k \<le> b"
    by blast
qed

theorem nextInt_spec_witness:
  "(\<exists>e. nextInt (Fin 10) (Fin 5) (new_SeededRandom (Fin 42)) = Inl e \<and> name e = ''Error'') \<and>
   (\<exists>k g'. nextInt (Fin 1) (Fin 6) (new_SeededRandom (Fin 42)) = Inr (Fin (of_int k), g')
      \<and> 1 \<le> k \<and> k \<le> 6)"
proof -
  let ?g = "new_SeededRandom (Fin 42)"
  have v: "valid ?g"
    by (rule new_SeededRandom_valid) simp_all
  have d: "double (of_int 1)" "double (of_int 6)"
    by (rule double_int, simp)+
  have "js_sub (Fin (of_int 6)) (Fin (of_int 1)) = Fin (of_int (6 - 1))"
    by (rule js_sub_int) simp
  moreover have "js_add (Fin (of_int 5)) (Fin (of_int 1)) = Fin (of_int (5 + 1))"
    by (rule js_add_int) simp
  ultimately have r: "js_add (js_sub (Fin (of_int 6)) (Fin (of_int 1))) (Fin 1) \<noteq> PosInf"
    by simp
  have l: "js_lt (Fin 5) (Fin 10)" by simp
  have "\<exists>e. nextInt (Fin 10) (Fin 5) ?g = Inl e \<and> name e = ''Error''"
    using nextInt_spec[of "Fin 10" "Fin 5" ?g 1 6] l by blast
  moreover have "\<exists>k g'. nextInt (Fin (of_int 1)) (Fin (of_int 6)) ?g = Inr (Fin (of_int k), g')
      \<and> 1 \<le> k \<and> k \<le> 6"
    using nextInt_spec[of "Fin 10" "Fin 5" ?g 1 6] v d r by simp
  ultimately show ?thesis by simp
qed

lemma MAX_VALUE_pos: "0 < MAX_VALUE"
  by (simp add: MAX_VALUE_def)

lemma MAX_VALUE_double: "double MAX_VALUE" "double (- MAX_VALUE)"
proof -
  have lo: "(2::rat) powi 1023 \<le> MAX_VALUE" by (simp add: MAX_VALUE_def)
  have hi: "MAX_VALUE < 2 powi (1023 + 1)" by (simp add: MAX_VALUE_def)
  have "ilog2 MAX_VALUE = 1023"
    using ilog2_ge[OF lo] ilog2_le[OF MAX_VALUE_pos hi] by simp
  then have e: "expo MAX_VALUE = 971" "expo (- MAX_VALUE) = 971"
    using MAX_VALUE_pos by (simp_all add: expo_def)
  have p: "(2::rat) powi 971 = 2 ^ 971" by simp
  have "MAX_VALUE = of_int (2 ^ 53 - 1) * 2 powi expo MAX_VALUE"
    unfolding e p by (simp add: MAX_VALUE_def)
  then have r1: "rnd MAX_VALUE = MAX_VALUE" by (rule rnd_grid)
  have "- MAX_VALUE = of_int (- (2 ^ 53 - 1)) * 2 powi expo (- MAX_VALUE)"
    unfolding e p by (simp add: MAX_VALUE_def)
  then have r2: "rnd (- MAX_VALUE) = - MAX_VALUE" by (rule rnd_grid)
  have "MAX_VALUE < huge" by (simp add: MAX_VALUE_def huge_def)
  then have h: "\<bar>MAX_VALUE\<bar> < huge" using MAX_VALUE_pos by simp
  show "double MAX_VALUE" using r1 h by (simp add: double_def)
  show "double (- MAX_VALUE)" using r2 h by (simp add: double_def)
qed

lemma range_MAX_VALUE:
  "js_add (js_sub (Fin MAX_VALUE) (Fin (- MAX_VALUE))) (Fin 1) = PosInf"
proof -
  have "huge \<le> MAX_VALUE + MAX_VALUE" by (simp add: MAX_VALUE_def huge_def)
  then have "huge \<le> rnd (MAX_VALUE + MAX_VALUE)" by (rule rnd_huge)
  then have "fl (MAX_VALUE + MAX_VALUE) = PosInf" by (rule fl_PosInf)
  then show ?thesis by (simp add: js_sub_def)
qed

lemma frac_draw:
  "nextInt (Fin (1 / 2)) (Fin (3 / 4)) \<lparr>seed = Fin 42\<rparr>
     = Inr (Fin (1 / 2), \<lparr>seed = Fin 2027382\<rparr>)"
proof -
  have s: "js_sub (Fin (3 / 4)) (Fin (1 / 2)) = Fin (1 / 4)"
    by code_simp
  have r: "js_add (Fin (1 / 4)) (Fin 1) = Fin (5 / 4)"
    by code_simp
  have m: "js_mul (Fin (2176883774910325 / 2305843009213693952)) (Fin (5 / 4))
             = Fin (1360552359318953 / 1152921504606846976)"
    by code_simp
  have f: "Math_floor (Fin (1360552359318953 / 1152921504606846976)) = Fin 0"
    by code_simp
  have a: "js_add (Fin 0) (Fin (1 / 2)) = Fin (1 / 2)"
    by code_simp
  have l: "js_lt (Fin (3 / 4)) (Fin (1 / 2)) = False" by simp
  show ?thesis
    unfolding nextInt_def Let_def split_beta
    by (simp only: l if_False next_42 fst_conv snd_conv s r m f a)
qed

text \<open>
  The claim of C7 as it was stated fails in four ways. The error of \<^verbatim>\<open>nextInt(10, 5)\<close>
  is a plain \<^verbatim>\<open>Error\<close>, not a \<^verbatim>\<open>RangeError\<close>. In the state that
  \<^verbatim>\<open>new SeededRandom(Infinity)\<close> builds, \<^verbatim>\<open>nextInt(1, 6)\<close> returns NaN. With the bounds
  \<open>0.5 \<le> 0.75\<close> it returns \<open>0.5\<close>, which is not an integer. With the integer bounds
  \<^verbatim>\<open>-Number.MAX_VALUE\<close> and \<^verbatim>\<open>Number.MAX_VALUE\<close> the range overflows and it returns
  \<^verbatim>\<open>Infinity\<close>.
\<close>

theorem nextInt_counterexample:
  "(\<exists>e. nextInt (Fin 10) (Fin 5) (new_SeededRandom (Fin 42)) = Inl e
        \<and> name e = ''Error'' \<and> name e \<noteq> ''RangeError'')
   \<and> nextInt (Fin 1) (Fin 6) (new_SeededRandom PosInf) = Inr (NaN, \<lparr>seed = NaN\<rparr>)
   \<and> nextInt (Fin (1 / 2)) (Fin (3 / 4)) (new_SeededRandom (Fin 42))
       = Inr (Fin (1 / 2), \<lparr>seed = Fin 2027382\<rparr>)
   \<and> double MAX_VALUE \<and> double (- MAX_VALUE) \<and> (\<exists>n. MAX_VALUE = of_int n)
   \<and> nextInt (Fin (- MAX_VALUE)) (Fin MAX_VALUE) (new_SeededRandom (Fin 42))
       = Inr (PosInf, \<lparr>seed = Fin 2027382\<rparr>)"
proof -
  have a: "\<exists>e. nextInt (Fin 10) (Fin 5) (new_SeededRandom (Fin 42)) = Inl e
        \<and> name e = ''Error'' \<and> name e \<noteq> ''RangeError''"
    by (simp add: nextInt_def Error_def)
  have g: "new_SeededRandom PosInf = \<lparr>seed = NaN\<rparr>"
    by (simp add: new_SeededRandom_def js_or_def js_ge_def js_strict_eq_def MODULUS_def)
  have n: "next \<lparr>seed = NaN\<rparr> = (NaN, \<lparr>seed = NaN\<rparr>)"
    by (simp add: next_def js_sub_def)
  have l: "js_lt (Fin 6) (Fin 1) = False" by simp
  have b: "nextInt (Fin 1) (Fin 6) (new_SeededRandom PosInf) = Inr (NaN, \<lparr>seed = NaN\<rparr>)"
    unfolding nextInt_def Let_def split_beta g
    by (simp only: l if_False n fst_conv snd_conv js_mul.simps Math_floor.simps js_add.simps)
  have c: "nextInt (Fin (1 / 2)) (Fin (3 / 4)) (new_SeededRandom (Fin 42))
       = Inr (Fin (1 / 2), \<lparr>seed = Fin 2027382\<rparr>)"
    by (simp only: new_42 frac_draw)
  have i: "\<exists>n. MAX_VALUE = of_int n"
    unfolding MAX_VALUE_def by blast
  have l': "js_lt (Fin MAX_VALUE) (Fin (- MAX_VALUE)) = False"
    using MAX_VALUE_pos by simp
  have m: "js_mul (Fin (2176883774910325 / 2305843009213693952)) PosInf = PosInf"
    by simp
  have d: "nextInt (Fin (- MAX_VALUE)) (Fin MAX_VALUE) (new_SeededRandom (Fin 42))
       = Inr (PosInf, \<lparr>seed = Fin 2027382\<rparr>)"
    unfolding nextInt_def Let_def split_beta new_42 range_MAX_VALUE
    by (simp only: l' if_False next_42 fst_conv snd_conv m Math_floor.simps js_add.simps)
  from a b c d i MAX_VALUE_double show ?thesis by blast
qed

text \<open>
  C8, as the code has it. \<^verbatim>\<open>choice(xs)\<close> throws exactly when \<open>xs\<close> is empty, and what it
  throws is a plain \<^verbatim>\<open>Error\<close> with the message \<^verbatim>\<open>Cannot choose from empty array\<close>. For a
  non-empty \<open>xs\<close> (an array of the language has at most \<open>2^32 - 1\<close> elements) and a
  generator state that satisfies the invariant, it returns the element of \<open>xs\<close> at the
  index that \<^verbatim>\<open>nextInt(0, xs.length - 1)\<close> draws, which lies in \<open>[0, length xs)\<close>.
\<close>

theorem choice_spec:
  "((\<exists>e. choice xs g = Inl e) \<longleftrightarrow> xs = []) \<and>
   (xs = [] \<longrightarrow> choice xs g = Inl (Error [Text ''Cannot choose from empty array''])
               \<and> name (Error [Text ''Cannot choose from empty array'']) = ''Error'') \<and>
   (valid g \<and> xs \<noteq> [] \<and> length xs \<le> 4294967295 \<longrightarrow>
      (\<exists>k g'. nextInt (Fin 0) (js_sub (array_length xs) (Fin 1)) g = Inr (Fin (of_int k), g')
         \<and> 0 \<le> k \<and> k < int (length xs)
         \<and> choice xs g = Inr (Some (xs ! nat k), g') \<and> xs ! nat k \<in> set xs))"
proof (intro conjI impI)
  show "(\<exists>e. choice xs g = Inl e) \<longleftrightarrow> xs = []"
  proof (cases "xs = []")
    case True
    then show ?thesis by (simp add: choice_def array_length_def js_strict_eq_def)
  next
    case False
    have "js_sub (array_length xs) (Fin 1) = fl (of_nat (length xs) - 1)"
      by (simp add: js_sub_def array_length_def)
    moreover have "0 \<le> rnd (of_nat (length xs) - 1)"
      using False by (intro rnd_nonneg) (cases xs, simp_all)
    ultimately have "\<not> js_lt (js_sub (array_length xs) (Fin 1)) (Fin 0)"
      using huge_pos by (simp add: fl_def Let_def)
    then have "\<nexists>e. nextInt (Fin 0) (js_sub (array_length xs) (Fin 1)) g = Inl e"
      by (simp add: nextInt_throws)
    then show ?thesis
      using False by (auto simp: choice_def array_length_def js_strict_eq_def split: sum.splits)
  qed
next
  assume "xs = []"
  then show "choice xs g = Inl (Error [Text ''Cannot choose from empty array''])"
    by (simp add: choice_def array_length_def js_strict_eq_def)
next
  show "name (Error [Text ''Cannot choose from empty array'']) = ''Error''"
    by (simp add: Error_def)
next
  assume h: "valid g \<and> xs \<noteq> [] \<and> length xs \<le> 4294967295"
  define n where "n = length xs - 1"
  have len: "length xs = Suc n" using h by (cases xs) (simp_all add: n_def)
  have "\<bar>int (length xs) - 1\<bar> < 9007199254740992" using h len by simp
  then have "js_sub (Fin (of_int (int (length xs)))) (Fin (of_int 1))
               = Fin (of_int (int (length xs) - 1))"
    by (rule js_sub_int)
  then have s: "js_sub (array_length xs) (Fin 1) = Fin (of_nat n)"
    by (simp add: array_length_def len)
  have "n < 9007199254740991" using h len by simp
  with h obtain j where
    j: "nextInt (Fin 0) (Fin (of_nat n)) g = Inr (Fin (of_int (int j)), snd (next g))" "j \<le> n"
    using nextInt_nat by blast
  have lt: "j < length xs" using j(2) len by simp
  have "array_get (array_of (map Some xs)) (Fin (of_int (int j))) = Some (xs ! j)"
    using lt by (simp add: array_get_def array_of_def)
  moreover have "js_strict_eq (array_length xs) (Fin 0) = False"
    using h by (simp add: array_length_def js_strict_eq_def)
  ultimately have "choice xs g = Inr (Some (xs ! j), snd (next g))"
    using j(1) by (simp add: choice_def s)
  moreover have "xs ! j \<in> set xs"
    using lt by simp
  moreover have "int j < int (length xs)" using lt by simp
  ultimately have "nextInt (Fin 0) (js_sub (array_length xs) (Fin 1)) g
          = Inr (Fin (of_int (int j)), snd (next g))
         \<and> 0 \<le> int j \<and> int j < int (length xs)
         \<and> choice xs g = Inr (Some (xs ! nat (int j)), snd (next g))
         \<and> xs ! nat (int j) \<in> set xs"
    using j(1) s by simp
  then show "\<exists>k g'. nextInt (Fin 0) (js_sub (array_length xs) (Fin 1)) g = Inr (Fin (of_int k), g')
         \<and> 0 \<le> k \<and> k < int (length xs)
         \<and> choice xs g = Inr (Some (xs ! nat k), g') \<and> xs ! nat k \<in> set xs"
    by blast
qed

theorem choice_spec_witness:
  "choice ([]::int list) (new_SeededRandom (Fin 42))
     = Inl (Error [Text ''Cannot choose from empty array'']) \<and>
   (\<exists>k g'. nextInt (Fin 0) (js_sub (array_length [10, 20, 30::int]) (Fin 1))
              (new_SeededRandom (Fin 42)) = Inr (Fin (of_int k), g')
      \<and> 0 \<le> k \<and> k < 3
      \<and> choice [10, 20, 30::int] (new_SeededRandom (Fin 42)) = Inr (Some ([10, 20, 30] ! nat k), g')
      \<and> [10, 20, 30] ! nat k \<in> set [10, 20, 30::int])"
proof -
  have v: "valid (new_SeededRandom (Fin 42))"
    by (rule new_SeededRandom_valid) simp_all
  have "choice ([]::int list) (new_SeededRandom (Fin 42))
     = Inl (Error [Text ''Cannot choose from empty array''])"
    using choice_spec[of "[]::int list" "new_SeededRandom (Fin 42)"] by blast
  moreover have "\<exists>k g'. nextInt (Fin 0) (js_sub (array_length [10, 20, 30::int]) (Fin 1))
              (new_SeededRandom (Fin 42)) = Inr (Fin (of_int k), g')
      \<and> 0 \<le> k \<and> k < int (length [10, 20, 30::int])
      \<and> choice [10, 20, 30::int] (new_SeededRandom (Fin 42)) = Inr (Some ([10, 20, 30] ! nat k), g')
      \<and> [10, 20, 30] ! nat k \<in> set [10, 20, 30::int]"
    using choice_spec[of "[10, 20, 30::int]" "new_SeededRandom (Fin 42)"] v by simp
  ultimately show ?thesis by simp
qed

text \<open>
  The claim of C8 as it was stated fails in two ways. The error of \<^verbatim>\<open>choice([])\<close> is a
  plain \<^verbatim>\<open>Error\<close>, not an \<^verbatim>\<open>EmptyInputError\<close>. In the state that
  \<^verbatim>\<open>new SeededRandom(Infinity)\<close> builds, the index drawn is NaN and
  \<^verbatim>\<open>choice([10, 20, 30])\<close> returns \<^verbatim>\<open>undefined\<close>, which is not an element of the array.
\<close>

theorem choice_counterexample:
  "choice ([]::int list) (new_SeededRandom (Fin 42))
     = Inl (Error [Text ''Cannot choose from empty array''])
   \<and> name (Error [Text ''Cannot choose from empty array'']) = ''Error''
   \<and> name (Error [Text ''Cannot choose from empty array'']) \<noteq> ''EmptyInputError''
   \<and> choice [10, 20, 30::int] (new_SeededRandom PosInf) = Inr (None, \<lparr>seed = NaN\<rparr>)"
proof -
  have g: "new_SeededRandom PosInf = \<lparr>seed = NaN\<rparr>"
    by (simp add: new_SeededRandom_def js_or_def js_ge_def js_strict_eq_def MODULUS_def)
  have n: "next \<lparr>seed = NaN\<rparr> = (NaN, \<lparr>seed = NaN\<rparr>)"
    by (simp add: next_def js_sub_def)
  have "js_sub (Fin (of_int 3)) (Fin (of_int 1)) = Fin (of_int (3 - 1))"
    by (rule js_sub_int) simp
  then have s: "js_sub (array_length [10, 20, 30::int]) (Fin 1) = Fin 2"
    by (simp add: array_length_def)
  have l: "js_lt (Fin 2) (Fin 0) = False" by simp
  have d: "nextInt (Fin 0) (Fin 2) \<lparr>seed = NaN\<rparr> = Inr (NaN, \<lparr>seed = NaN\<rparr>)"
    unfolding nextInt_def Let_def split_beta
    by (simp only: l if_False n fst_conv snd_conv js_mul.simps Math_floor.simps js_add.simps)
  have e: "js_strict_eq (array_length [10, 20, 30::int]) (Fin 0) = False"
    by (simp add: array_length_def js_strict_eq_def)
  have "choice [10, 20, 30::int] (new_SeededRandom PosInf) = Inr (None, \<lparr>seed = NaN\<rparr>)"
    by (simp add: choice_def g s d e array_get_def array_of_def)
  moreover have "choice ([]::int list) (new_SeededRandom (Fin 42))
     = Inl (Error [Text ''Cannot choose from empty array''])"
    by (simp add: choice_def array_length_def js_strict_eq_def)
  ultimately show ?thesis by (simp add: Error_def)
qed

end
